theory Spec2Isabelle
  imports Complex_Main "HOL-Library.Log_Nat"
begin

section \<open>Python values\<close>

text \<open>
  The exceptions that the modelled code can raise.  \<open>IndexError\<close> comes from
  numpy and torch indexing, \<open>ValueError\<close> from \<open>max\<close> of an empty list, from
  \<open>np.ones\<close> with a negative size and from \<open>np.random.choice\<close>,
  \<open>RuntimeError\<close> from \<open>torch.topk\<close>.
\<close>

datatype py_error = IndexError | ValueError | RuntimeError

text \<open>
  A \<open>float64\<close> is modelled by a \<open>real\<close>: the popularity counts are small
  integers, which \<open>float64\<close> holds exactly.  Where the code turns a
  \<open>float64\<close> product into an integer, by \<open>int\<close> or by \<open>math.floor\<close>, the
  rounding of the product decides the result, and the product is rounded as
  IEEE 754 does (\<open>float_mul\<close> below).
\<close>

type_synonym np_array = "real list"

text \<open>
  The exponent of a positive \<open>x\<close>, the \<open>e\<close> with \<open>2^e \<le> x < 2^(e+1)\<close>,
  and \<open>-1022\<close> for the subnormal numbers below \<open>2^-1022\<close>.  \<open>bitlen m\<close> is
  the number of binary digits of \<open>m\<close>.
\<close>

definition float64_exponent :: "real \<Rightarrow> int" where
  "float64_exponent x =
     (if 1 \<le> x then bitlen \<lfloor>x\<rfloor> - 1 else max (- bitlen (\<lceil>1 / x\<rceil> - 1)) (- 1022))"

text \<open>The nearest integer, a tie going to the even one.\<close>

definition round_half_even :: "real \<Rightarrow> int" where
  "round_half_even q =
     (let f = \<lfloor>q\<rfloor>; d = q - of_int f
      in if d < 1 / 2 then f else if 1 / 2 < d then f + 1 else if even f then f else f + 1)"

text \<open>
  The \<open>float64\<close> nearest to a real number: the nearest multiple of
  \<open>2^(e-52)\<close>, which leaves 53 significant bits.  Overflow to \<open>inf\<close>, which
  takes a magnitude of \<open>2^1024\<close>, is not modelled.
\<close>

definition float64_round :: "real \<Rightarrow> real" where
  "float64_round x =
     (let u = 2 powi (float64_exponent \<bar>x\<bar> - 52)
      in of_int (round_half_even (x / u)) * u)"

text \<open>
  Python's \<open>n * x\<close> with an \<open>int\<close> and a \<open>float\<close>: the integer is
  converted to \<open>float64\<close>, and the product of the two is rounded once.
\<close>

definition float_of_int :: "int \<Rightarrow> real" where
  "float_of_int n = float64_round (of_int n)"

definition float_mul :: "real \<Rightarrow> real \<Rightarrow> real" where
  "float_mul x y = float64_round (x * y)"

text \<open>
  A Python \<open>dict\<close> keeps its keys in insertion order, and storing under a key that
  is present keeps the key's place.
\<close>

type_synonym ('k, 'v) py_dict = "('k \<times> 'v) list"

fun dict_get :: "('k, 'v) py_dict \<Rightarrow> 'k \<Rightarrow> 'v \<Rightarrow> 'v" where
  "dict_get [] k d = d"
| "dict_get ((k', v) # kvs) k d = (if k' = k then v else dict_get kvs k d)"

fun dict_set :: "('k, 'v) py_dict \<Rightarrow> 'k \<Rightarrow> 'v \<Rightarrow> ('k, 'v) py_dict" where
  "dict_set [] k v = [(k, v)]"
| "dict_set ((k', v') # kvs) k v =
     (if k' = k then (k, v) # kvs else (k', v') # dict_set kvs k v)"

text \<open>
  An integer index into an array of length \<open>n\<close>, as numpy and torch read it: a
  negative index counts from the end, and an index outside \<open>[-n, n)\<close> raises.
\<close>

definition np_index :: "nat \<Rightarrow> int \<Rightarrow> py_error + nat" where
  "np_index n i =
     (if 0 \<le> i \<and> i < int n then Inr (nat i)
      else if - int n \<le> i \<and> i < 0 then Inr (nat (i + int n))
      else Inl IndexError)"

section \<open>The dataset builder\<close>

text \<open>
  \<open>DualEncoderDatasets\<close>: the three input lists and the two sizes that
  \<open>__post_init__\<close> derives from them.
\<close>

record DualEncoderDatasets =
  interactions :: "(int \<times> int) list"
  users :: "(int \<times> string) list"
  items :: "(int \<times> string) list"
  users_size :: int
  items_size :: int

text \<open>\<open>max(xs, key=lambda tu: tu[0])[0]\<close>; \<open>max\<close> of an empty list raises.\<close>

definition max_id :: "(int \<times> string) list \<Rightarrow> py_error + int" where
  "max_id xs = (case xs of [] \<Rightarrow> Inl ValueError | x # rest \<Rightarrow> Inr (fold max (map fst rest) (fst x)))"

definition post_init ::
  "(int \<times> int) list \<Rightarrow> (int \<times> string) list \<Rightarrow> (int \<times> string) list \<Rightarrow> py_error + DualEncoderDatasets" where
  "post_init ixs us its =
     (case max_id us of
        Inl e \<Rightarrow> Inl e
      | Inr mu \<Rightarrow>
          (case max_id its of
             Inl e \<Rightarrow> Inl e
           | Inr mi \<Rightarrow>
               Inr \<lparr>interactions = ixs, users = us, items = its,
                    users_size = mu + 1, items_size = mi + 1\<rparr>))"

subsection \<open>\<open>make_pos_distributions\<close>\<close>

text \<open>\<open>np.ones(n)\<close> raises on a negative size.\<close>

definition np_ones :: "int \<Rightarrow> py_error + np_array" where
  "np_ones n = (if n < 0 then Inl ValueError else Inr (replicate (nat n) 1))"

text \<open>
  The loop over the interactions: one step adds 1 to the item's weight and appends
  the item to the user's list.
\<close>

fun make_pos_loop ::
  "(int \<times> int) list \<Rightarrow> np_array \<Rightarrow> (int, int list) py_dict \<Rightarrow>
   py_error + (np_array \<times> (int, int list) py_dict)" where
  "make_pos_loop [] freq_dist pos_interactions = Inr (freq_dist, pos_interactions)"
| "make_pos_loop ((user_id, item_id) # rest) freq_dist pos_interactions =
     (case np_index (length freq_dist) item_id of
        Inl e \<Rightarrow> Inl e
      | Inr j \<Rightarrow>
          make_pos_loop rest
            (freq_dist[j := freq_dist ! j + 1])
            (dict_set pos_interactions user_id
               (dict_get pos_interactions user_id [] @ [item_id])))"

definition make_pos_distributions ::
  "DualEncoderDatasets \<Rightarrow> (int \<times> int) list \<Rightarrow>
   py_error + (np_array \<times> (int, int list) py_dict)" where
  "make_pos_distributions self ixs =
     (case np_ones (items_size self) of
        Inl e \<Rightarrow> Inl e
      | Inr freq_dist \<Rightarrow> make_pos_loop ixs freq_dist [])"

text \<open>What the mapping is compared with: a user's items, in the order of the
  interaction list, and the users in the order of their first interaction.\<close>

definition positives_of :: "int \<Rightarrow> (int \<times> int) list \<Rightarrow> int list" where
  "positives_of u ixs = map snd (filter (\<lambda>p. fst p = u) ixs)"

fun first_seen :: "'a list \<Rightarrow> 'a list \<Rightarrow> 'a list" where
  "first_seen seen [] = []"
| "first_seen seen (x # xs) =
     (if x \<in> set seen then first_seen seen xs else x # first_seen (seen @ [x]) xs)"

subsection \<open>\<open>neg_choice\<close>\<close>

text \<open>
  \<open>np.random.choice\<close> draws from numpy's process-wide generator, which this code
  never seeds.  Its state is made explicit: the stream of raw 53-bit outputs still
  to come.  \<open>random_sample(n)\<close> turns the next \<open>n\<close> outputs into numbers of
  \<open>[0, 1)\<close> and advances the stream.
\<close>

type_synonym rng = "nat \<Rightarrow> int"

definition random_sample :: "rng \<Rightarrow> nat \<Rightarrow> real list \<times> rng" where
  "random_sample g n =
     (map (\<lambda>i. real_of_int (g i mod 2 ^ 53) / 2 ^ 53) [0..<n], \<lambda>i. g (i + n))"

text \<open>
  \<open>freq_dist_copy[pos_item_ids] = 0\<close> with an index array: every index is
  checked first (\<open>np_indices\<close>), then the entries are set.  The index array is
  \<open>np.array(list(set(pos_item_ids)))\<close>; for an empty list that is an empty
  \<open>float64\<close> array, which numpy refuses as an index with \<open>IndexError\<close>.
\<close>

fun np_indices :: "nat \<Rightarrow> int list \<Rightarrow> py_error + nat list" where
  "np_indices n [] = Inr []"
| "np_indices n (i # rest) =
     (case np_index n i of
        Inl e \<Rightarrow> Inl e
      | Inr j \<Rightarrow> (case np_indices n rest of Inl e \<Rightarrow> Inl e | Inr js \<Rightarrow> Inr (j # js)))"

definition zero_at :: "np_array \<Rightarrow> nat list \<Rightarrow> np_array" where
  "zero_at a js = fold (\<lambda>j b. b[j := 0]) js a"

definition np_set_zero :: "np_array \<Rightarrow> int list \<Rightarrow> py_error + np_array" where
  "np_set_zero a idx =
     (if idx = [] then Inl IndexError
      else case np_indices (length a) idx of
             Inl e \<Rightarrow> Inl e
           | Inr js \<Rightarrow> Inr (zero_at a js))"

text \<open>\<open>int(x)\<close> on a float: truncation towards zero.\<close>

definition py_int :: "real \<Rightarrow> int" where
  "py_int x = (if 0 \<le> x then \<lfloor>x\<rfloor> else \<lceil>x\<rceil>)"

text \<open>
  \<open>np.argsort(a)\<close>: the indices in ascending order of weight.  numpy fixes no
  order among equal weights; the model keeps them in index order.
\<close>

definition np_argsort :: "np_array \<Rightarrow> nat list" where
  "np_argsort a = sort_key (\<lambda>i. a ! i) [0..<length a]"

text \<open>The slice \<open>xs[start:]\<close>: a negative start counts from the end, and
  \<open>xs[-0:]\<close> is \<open>xs[0:]\<close>, the whole list.\<close>

definition slice_from :: "int \<Rightarrow> 'a list \<Rightarrow> 'a list" where
  "slice_from start xs =
     (let n = int (length xs)
      in drop (nat (if start < 0 then max (start + n) 0 else min start n)) xs)"

text \<open>
  \<open>freq_margin_num = int(len(freq_dist_copy) * freq_margin)\<close>: the
  \<open>float64\<close> product, truncated.
\<close>

definition freq_margin_num :: "np_array \<Rightarrow> real \<Rightarrow> int" where
  "freq_margin_num freq_dist_copy freq_margin =
     py_int (float_mul (float_of_int (int (length freq_dist_copy))) freq_margin)"

text \<open>The candidates: \<open>np.argsort(freq_dist_copy)[-freq_margin_num:]\<close>.\<close>

definition item_id_to_choice :: "np_array \<Rightarrow> real \<Rightarrow> nat list" where
  "item_id_to_choice freq_dist_copy freq_margin =
     slice_from (- freq_margin_num freq_dist_copy freq_margin) (np_argsort freq_dist_copy)"

text \<open>
  \<open>freq_dist_copy / freq_dist_copy.sum()\<close>.  A division by a zero sum raises
  nothing and gives entries that are NaN or infinite; \<open>None\<close> stands for such
  an array.
\<close>

definition np_normalize :: "np_array \<Rightarrow> np_array option" where
  "np_normalize a = (if sum_list a = 0 then None else Some (map (\<lambda>x. x / sum_list a) a))"

text \<open>
  \<open>np.random.choice(a, size, replace=False, p)\<close> of the legacy generator.  One
  round of its loop draws as many uniform numbers as ids are still missing, zeroes
  the probabilities of the ids already found, looks each number up in the
  normalised cumulative sums (\<open>searchsorted(..., side='right')\<close>), and keeps the
  new positions in the order of their first occurrence.
\<close>

definition np_cumsum :: "np_array \<Rightarrow> np_array" where
  "np_cumsum p = map (\<lambda>i. sum_list (take (Suc i) p)) [0..<length p]"

definition searchsorted_right :: "np_array \<Rightarrow> real \<Rightarrow> nat" where
  "searchsorted_right cdf x = length (takeWhile (\<lambda>c. c \<le> x) cdf)"

definition choice_new :: "np_array \<Rightarrow> real list \<Rightarrow> nat list" where
  "choice_new p x =
     (let cdf = np_cumsum p;
          cdf' = map (\<lambda>c. c / last cdf) cdf
      in first_seen [] (map (searchsorted_right cdf') x))"

function choice_loop :: "rng \<Rightarrow> np_array \<Rightarrow> nat list \<Rightarrow> nat \<Rightarrow> nat list \<times> rng" where
  "choice_loop g p found sz =
     (if length found < sz then
        choice_loop
          (snd (random_sample g (sz - length found)))
          (zero_at p found)
          (found @ choice_new (zero_at p found) (fst (random_sample g (sz - length found))))
          sz
      else (found, g))"
  by pat_completeness auto
termination
proof (relation "measure (\<lambda>(g, p, found, sz). sz - length found)")
  show "wf (measure (\<lambda>(g, p, found, sz). sz - length found))" by simp
next
  fix g :: rng and p :: np_array and found :: "nat list" and sz :: nat
  assume a: "length found < sz"
  have "fst (random_sample g (sz - length found)) \<noteq> []"
    using a by (simp add: random_sample_def)
  then obtain x xs where "fst (random_sample g (sz - length found)) = x # xs"
    by (cases "fst (random_sample g (sz - length found))") auto
  then have "choice_new (zero_at p found) (fst (random_sample g (sz - length found))) \<noteq> []"
    by (simp add: choice_new_def Let_def)
  then have "0 < length (choice_new (zero_at p found) (fst (random_sample g (sz - length found))))"
    by simp
  with a show "((snd (random_sample g (sz - length found)), zero_at p found,
          found @ choice_new (zero_at p found) (fst (random_sample g (sz - length found))), sz),
         g, p, found, sz) \<in> measure (\<lambda>(g, p, found, sz). sz - length found)"
    by (simp del: length_greater_0_conv)
qed

declare choice_loop.simps [simp del]

text \<open>
  The checks of \<open>choice\<close>, each of which raises \<open>ValueError\<close>: an empty
  population with a non-zero size, probabilities that are NaN, of the wrong length,
  negative or not summing to 1 (within \<open>sqrt(eps) = 2^-26\<close>), a size that is
  negative or larger than the population, and fewer positive probabilities than
  the size.
\<close>

definition random_choice ::
  "rng \<Rightarrow> nat list \<Rightarrow> int \<Rightarrow> np_array option \<Rightarrow> (py_error + nat list) \<times> rng" where
  "random_choice g a sz p_opt =
     (case p_opt of
        None \<Rightarrow> (Inl ValueError, g)
      | Some p \<Rightarrow>
          if (a = [] \<and> sz \<noteq> 0) \<or> length p \<noteq> length a
             \<or> (\<exists>x \<in> set p. x < 0) \<or> \<bar>sum_list p - 1\<bar> > 1 / 2 ^ 26
             \<or> int (length a) < sz \<or> sz < 0
             \<or> int (length (filter (\<lambda>x. 0 < x) p)) < sz
          then (Inl ValueError, g)
          else (Inr (map (\<lambda>i. a ! i) (fst (choice_loop g p [] (nat sz)))),
                snd (choice_loop g p [] (nat sz))))"

text \<open>
  \<open>neg_choice\<close>.  \<open>g\<close> is the stream of the numbers that this call gets
  from the generator.  \<open>remdups\<close> stands for \<open>list(set(pos_item_ids))\<close>, whose
  order has no effect.  Only \<open>ValueError\<close> is caught; the fallback is
  \<open>[0] * n_samples\<close>, which is empty for a negative \<open>n_samples\<close>.
\<close>

definition neg_choice ::
  "rng \<Rightarrow> np_array \<Rightarrow> int list \<Rightarrow> real \<Rightarrow> int \<Rightarrow> (py_error + int list) \<times> rng" where
  "neg_choice g freq_dist pos_item_ids freq_margin neg_per_sample =
     (case np_set_zero freq_dist (remdups pos_item_ids) of
        Inl e \<Rightarrow> (Inl e, g)
      | Inr freq_dist_copy \<Rightarrow>
          (let ids = item_id_to_choice freq_dist_copy freq_margin;
               p = np_normalize (map (\<lambda>i. freq_dist_copy ! i) ids);
               n_samples = neg_per_sample * int (length (remdups pos_item_ids))
           in case random_choice g ids n_samples p of
                (Inl e, g') \<Rightarrow>
                  if e = ValueError then (Inr (replicate (nat n_samples) 0), g')
                  else (Inl e, g')
              | (Inr chosen, g') \<Rightarrow> (Inr (map int chosen), g')))"

subsection \<open>\<open>create_dataset\<close>\<close>

text \<open>A labelled example \<open>(user_id, item_id, label)\<close>.\<close>

type_synonym example = "int \<times> int \<times> int"

text \<open>
  The inner loop over \<open>zip(pos_item_ids, neg_item_ids)\<close>, which stops when either
  list ends, appending to \<open>dataset\<close>.
\<close>

fun append_pairs :: "int \<Rightarrow> int list \<Rightarrow> int list \<Rightarrow> example list \<Rightarrow> example list" where
  "append_pairs user_id (pos_item_id # ps) (neg_item_id # ns) dataset =
     append_pairs user_id ps ns (dataset @ [(user_id, pos_item_id, 1), (user_id, neg_item_id, -1)])"
| "append_pairs user_id ps ns dataset = dataset"

fun create_dataset_loop ::
  "(int \<times> int list \<times> int list) list \<Rightarrow> example list \<Rightarrow> example list" where
  "create_dataset_loop [] dataset = dataset"
| "create_dataset_loop ((user_id, pos_item_ids, neg_item_ids) # rest) dataset =
     create_dataset_loop rest (append_pairs user_id pos_item_ids neg_item_ids dataset)"

definition create_dataset :: "(int \<times> int list \<times> int list) list \<Rightarrow> example list" where
  "create_dataset pos_neg_interactions = create_dataset_loop pos_neg_interactions []"

text \<open>The examples of one user, as the claim describes them.\<close>

definition user_examples :: "int \<times> int list \<times> int list \<Rightarrow> example list" where
  "user_examples t = create_dataset [t]"

text \<open>The example of the specification: four items, two users, three interactions.\<close>

definition example_datasets :: DualEncoderDatasets where
  "example_datasets =
     \<lparr>interactions = [(0, 1), (0, 2), (1, 2)],
      users = [(0, ''u0''), (1, ''u1'')],
      items = [(0, ''i0''), (1, ''i1''), (2, ''i2''), (3, ''i3'')],
      users_size = 2, items_size = 4\<rparr>"

subsection \<open>\<open>make_negative_samples\<close>\<close>

text \<open>
  \<open>pool.map\<close> runs one task per entry of \<open>pos_interactions\<close> on the threads
  of the pool, and all tasks draw from the one generator of the process.  The
  generator hands its numbers out in the order in which the threads ask for them,
  and that order is not fixed by the program.  A \<open>schedule\<close> records one such
  order: \<open>sched k i\<close> is the place, in the stream of the generator, of the
  \<open>i\<close>-th number that task \<open>k\<close> receives, and \<open>task_rng\<close> is the stream
  that task \<open>k\<close> sees.
\<close>

type_synonym schedule = "nat \<Rightarrow> nat \<Rightarrow> nat"

definition task_rng :: "rng \<Rightarrow> schedule \<Rightarrow> nat \<Rightarrow> rng" where
  "task_rng g sched k = (\<lambda>i. g (sched k i))"

text \<open>
  The results of the tasks from task \<open>k\<close> on, in the order of the mapping
  whatever the order of completion.  \<open>list\<close> re-raises the exception of the
  first task, in that order, that raised one.
\<close>

fun neg_samples_map ::
  "rng \<Rightarrow> schedule \<Rightarrow> nat \<Rightarrow> np_array \<Rightarrow> (int, int list) py_dict \<Rightarrow> real \<Rightarrow> int \<Rightarrow>
   py_error + (int \<times> int list \<times> int list) list" where
  "neg_samples_map g sched k freq_dist [] freq_margin neg_per_sample = Inr []"
| "neg_samples_map g sched k freq_dist ((user_id, pos_item_ids) # rest) freq_margin neg_per_sample =
     (case fst (neg_choice (task_rng g sched k) freq_dist pos_item_ids freq_margin neg_per_sample) of
        Inl e \<Rightarrow> Inl e
      | Inr neg_item_ids \<Rightarrow>
          (case neg_samples_map g sched (Suc k) freq_dist rest freq_margin neg_per_sample of
             Inl e \<Rightarrow> Inl e
           | Inr triples \<Rightarrow> Inr ((user_id, pos_item_ids, neg_item_ids) # triples)))"

text \<open>
  \<open>make_negative_samples\<close>, called when the generator is in the state \<open>g\<close>
  and run under the schedule \<open>sched\<close>.
\<close>

definition make_negative_samples ::
  "DualEncoderDatasets \<Rightarrow> rng \<Rightarrow> schedule \<Rightarrow> real \<Rightarrow> int \<Rightarrow>
   py_error + (int \<times> int list \<times> int list) list" where
  "make_negative_samples self g sched freq_margin neg_per_sample =
     (case make_pos_distributions self (interactions self) of
        Inl e \<Rightarrow> Inl e
      | Inr (freq_dist, pos_interactions) \<Rightarrow>
          neg_samples_map g sched 0 freq_dist pos_interactions freq_margin neg_per_sample)"

subsection \<open>\<open>split\<close>\<close>

text \<open>
  \<open>torch.utils.data.Subset\<close>: the whole dataset and the indices of the part.
\<close>

record Subset =
  dataset :: "example list"
  indices :: "nat list"

record DualEncoderSplit =
  train_dataset :: Subset
  eval_dataset :: Subset

text \<open>
  \<open>random_split(dataset, [0.95, 0.05], generator)\<close>: the two lengths are
  \<open>int(math.floor(len(dataset) * frac))\<close>, and what is left over is handed out
  one by one, the first part first.  The two fractions are the \<open>float64\<close>
  numbers that \<open>0.95\<close> and \<open>0.05\<close> denote.
\<close>

definition random_split_lengths :: "nat \<Rightarrow> nat \<times> nat" where
  "random_split_lengths n =
     (let l1 = nat \<lfloor>float_mul (float_of_int (int n)) (4278419646001971 / 2 ^ 52)\<rfloor>;
          l2 = nat \<lfloor>float_mul (float_of_int (int n)) (3602879701896397 / 2 ^ 56)\<rfloor>;
          remainder = n - (l1 + l2)
      in (l1 + (remainder + 1) div 2, l2 + remainder div 2))"

text \<open>
  \<open>__train_eval_split\<close>.  The generator of the permutation is created and seeded
  with 42 in every call, so \<open>torch.randperm(n, generator)\<close> is a function of
  \<open>n\<close>: the parameter \<open>randperm\<close>.
\<close>

definition train_eval_split :: "(nat \<Rightarrow> nat list) \<Rightarrow> example list \<Rightarrow> DualEncoderSplit" where
  "train_eval_split randperm ds =
     (let (l1, l2) = random_split_lengths (length ds);
          idx = randperm (l1 + l2)
      in \<lparr>train_dataset = \<lparr>dataset = ds, indices = take l1 idx\<rparr>,
          eval_dataset = \<lparr>dataset = ds, indices = take l2 (drop l1 idx)\<rparr>\<rparr>)"

text \<open>
  \<open>split\<close> has no seed among its parameters.  What a call returns depends on
  its arguments, on the state \<open>g\<close> in which it finds the generator of numpy and
  on the schedule of the pool.
\<close>

definition split ::
  "(nat \<Rightarrow> nat list) \<Rightarrow> DualEncoderDatasets \<Rightarrow> rng \<Rightarrow> schedule \<Rightarrow> real \<Rightarrow> int \<Rightarrow>
   py_error + DualEncoderSplit" where
  "split randperm self g sched freq_margin neg_per_sample =
     (case make_negative_samples self g sched freq_margin neg_per_sample of
        Inl e \<Rightarrow> Inl e
      | Inr pos_neg_interactions \<Rightarrow>
          Inr (train_eval_split randperm (create_dataset pos_neg_interactions)))"

text \<open>
  What two runs are compared by: an example with the item id of a negative example
  blanked, and of a split the two index lists and the blanked examples.
\<close>

definition without_negative_item :: "example \<Rightarrow> example" where
  "without_negative_item x =
     (case x of (user_id, item_id, label) \<Rightarrow> (user_id, if label = 1 then item_id else 0, label))"

definition split_outline :: "DualEncoderSplit \<Rightarrow> nat list \<times> nat list \<times> example list \<times> example list" where
  "split_outline s =
     (indices (train_dataset s), indices (eval_dataset s),
      map without_negative_item (dataset (train_dataset s)),
      map without_negative_item (dataset (eval_dataset s)))"

text \<open>Two users and three items, with weights that are all different once a
  user's positive is zeroed.\<close>

definition two_user_datasets :: DualEncoderDatasets where
  "two_user_datasets =
     \<lparr>interactions = [(0, 0), (1, 1)],
      users = [(0, ''u0''), (1, ''u1'')],
      items = [(0, ''i0''), (1, ''i1''), (2, ''i2'')],
      users_size = 2, items_size = 3\<rparr>"

text \<open>
  A generator whose first number is 0 and whose later numbers are
  \<open>3/4 * 2^53\<close>, and the two schedules of two tasks that draw in turn: task 0
  first, and task 1 first.
\<close>

definition example_rng :: rng where
  "example_rng i = (if i = 0 then 0 else 3 * 2 ^ 51)"

definition task0_first :: schedule where
  "task0_first k i = 2 * i + k"

definition task1_first :: schedule where
  "task1_first k i = 2 * i + (1 - k)"

text \<open>
  What every run of \<open>make_negative_samples\<close> yields, whatever the generator
  and the schedule do: the users, their positives and the number of their
  negatives, or the error.
\<close>

fun neg_samples_shape ::
  "np_array \<Rightarrow> (int, int list) py_dict \<Rightarrow> int \<Rightarrow> py_error + (int \<times> int list \<times> nat) list" where
  "neg_samples_shape freq_dist [] neg_per_sample = Inr []"
| "neg_samples_shape freq_dist ((user_id, pos_item_ids) # rest) neg_per_sample =
     (case np_set_zero freq_dist (remdups pos_item_ids) of
        Inl e \<Rightarrow> Inl e
      | Inr c \<Rightarrow>
          (case neg_samples_shape freq_dist rest neg_per_sample of
             Inl e \<Rightarrow> Inl e
           | Inr ts \<Rightarrow>
               Inr ((user_id, pos_item_ids,
                     nat (neg_per_sample * int (length (remdups pos_item_ids)))) # ts)))"

definition shape_of :: "(int \<times> int list \<times> int list) list \<Rightarrow> (int \<times> int list \<times> nat) list" where
  "shape_of ts = map (\<lambda>(u, ps, ns). (u, ps, length ns)) ts"

section \<open>The embedding model\<close>

text \<open>
  \<open>DualEncoderModel\<close>: the weight matrices of the two \<open>torch.nn.Embedding\<close>
  tables, one row per user and one per item (\<open>config.users_size\<close> and
  \<open>config.items_size\<close> rows of \<open>config.embedding_dim\<close> entries), and the
  similarity module \<open>self.cs\<close>.  A \<open>float32\<close> entry is modelled by a
  \<open>real\<close>.
\<close>

type_synonym tensor1 = "real list"
type_synonym tensor2 = "real list list"

record DualEncoderModel =
  user_embeddings :: tensor2
  item_embeddings :: tensor2
  cs :: "tensor1 \<Rightarrow> tensor1 \<Rightarrow> real"

text \<open>
  \<open>torch.nn.CosineSimilarity(dim=1, eps=1e-8)\<close> on a vector and a row:
  the dot product over the product of the two norms, each norm clamped from below by
  \<open>eps\<close>.  The theorems below hold for any similarity function in \<open>cs\<close>.
\<close>

definition l2_norm :: "tensor1 \<Rightarrow> real" where
  "l2_norm x = sqrt (sum_list (map (\<lambda>a. a * a) x))"

definition CosineSimilarity :: "tensor1 \<Rightarrow> tensor1 \<Rightarrow> real" where
  "CosineSimilarity x1 x2 =
     sum_list (map (\<lambda>(a, b). a * b) (zip x1 x2))
       / (max (l2_norm x1) (1 / 10 ^ 8) * max (l2_norm x2) (1 / 10 ^ 8))"

text \<open>\<open>weight[i, :]\<close>: a negative \<open>i\<close> counts from the last row.\<close>

definition tensor_row :: "tensor2 \<Rightarrow> int \<Rightarrow> py_error + tensor1" where
  "tensor_row w i = (case np_index (length w) i of Inl e \<Rightarrow> Inl e | Inr j \<Rightarrow> Inr (w ! j))"

text \<open>
  \<open>torch.topk(xs, k).indices.tolist()\<close>: the indices of the \<open>k\<close> largest
  entries, largest first; \<open>k\<close> outside \<open>[0, len(xs)]\<close> raises.  Among equal
  entries torch fixes no order; the model takes the lower index first.
\<close>

definition topk_indices :: "real list \<Rightarrow> int \<Rightarrow> py_error + int list" where
  "topk_indices xs k =
     (if k < 0 \<or> int (length xs) < k then Inl RuntimeError
      else Inr (map int (take (nat k) (sort_key (\<lambda>i. - (xs ! i)) [0..<length xs]))))"

text \<open>The loop of \<open>recommend_topk_by_user_ids\<close> over \<open>user_ids\<close>.\<close>

fun recommend_loop ::
  "DualEncoderModel \<Rightarrow> int list \<Rightarrow> int \<Rightarrow> int list list \<Rightarrow> py_error + int list list" where
  "recommend_loop self [] top_k recommended_item_ids = Inr recommended_item_ids"
| "recommend_loop self (user_id # rest) top_k recommended_item_ids =
     (case tensor_row (user_embeddings self) user_id of
        Inl e \<Rightarrow> Inl e
      | Inr row \<Rightarrow>
          (case topk_indices (map (cs self row) (item_embeddings self)) top_k of
             Inl e \<Rightarrow> Inl e
           | Inr ids \<Rightarrow> recommend_loop self rest top_k (recommended_item_ids @ [ids])))"

definition recommend_topk_by_user_ids ::
  "DualEncoderModel \<Rightarrow> int list \<Rightarrow> int \<Rightarrow> py_error + int list list" where
  "recommend_topk_by_user_ids self user_ids top_k = recommend_loop self user_ids top_k []"

text \<open>
  \<open>weight[item_ids, :].mean(dim=0)\<close>: the rows picked by a list of ids, and
  their mean, column by column.  For an empty list torch gives a vector of NaN,
  which a \<open>real\<close> cannot express: the model's value there (each column
  \<open>0 / 0\<close>) stands for nothing, and no theorem below is about that case.
\<close>

fun tensor_rows :: "tensor2 \<Rightarrow> int list \<Rightarrow> py_error + tensor2" where
  "tensor_rows w [] = Inr []"
| "tensor_rows w (i # rest) =
     (case tensor_row w i of
        Inl e \<Rightarrow> Inl e
      | Inr r \<Rightarrow> (case tensor_rows w rest of Inl e \<Rightarrow> Inl e | Inr rs \<Rightarrow> Inr (r # rs)))"

definition ncols :: "tensor2 \<Rightarrow> nat" where
  "ncols w = (case w of [] \<Rightarrow> 0 | r # _ \<Rightarrow> length r)"

definition mean_dim0 :: "nat \<Rightarrow> tensor2 \<Rightarrow> tensor1" where
  "mean_dim0 d rows = map (\<lambda>c. sum_list (map (\<lambda>r. r ! c) rows) / real (length rows)) [0..<d]"

definition recommend_topk_by_item_ids ::
  "DualEncoderModel \<Rightarrow> int list \<Rightarrow> int \<Rightarrow> py_error + int list" where
  "recommend_topk_by_item_ids self item_ids top_k =
     (case tensor_rows (item_embeddings self) item_ids of
        Inl e \<Rightarrow> Inl e
      | Inr rows \<Rightarrow>
          topk_indices
            (map (cs self (mean_dim0 (ncols (item_embeddings self)) rows)) (item_embeddings self))
            top_k)"

text \<open>A model with two users and three items, for the concrete checks.\<close>

definition example_model :: DualEncoderModel where
  "example_model = \<lparr>user_embeddings = [[1, 0], [0, 1]],
     item_embeddings = [[0, 1], [1, 0], [-1, 0]], cs = CosineSimilarity\<rparr>"

section \<open>Properties of \<open>make_pos_distributions\<close>\<close>

lemma np_index_bound: "np_index n i = Inr j \<Longrightarrow> j < n"
  by (auto simp: np_index_def split: if_splits)

lemma np_index_valid:
  "- int n \<le> i \<Longrightarrow> i < int n \<Longrightarrow> \<exists>j. np_index n i = Inr j"
  by (auto simp: np_index_def)

lemma dict_get_set:
  "dict_get (dict_set d k v) k' dflt = (if k' = k then v else dict_get d k' dflt)"
  by (induction d) auto

lemma keys_dict_set:
  "map fst (dict_set d k v) = (if k \<in> set (map fst d) then map fst d else map fst d @ [k])"
  by (induction d) (force simp: image_iff)+

lemma sum_list_bump:
  fixes xs :: "real list"
  shows "j < length xs \<Longrightarrow> sum_list (xs[j := xs ! j + 1]) = sum_list xs + 1"
  by (induction xs arbitrary: j) (auto split: nat.splits)

lemma make_pos_loop_ok:
  assumes "\<forall>p \<in> set ixs. - int (length fd) \<le> snd p \<and> snd p < int (length fd)"
  shows "\<exists>fd' pos'. make_pos_loop ixs fd pos = Inr (fd', pos')
           \<and> length fd' = length fd
           \<and> sum_list fd' = sum_list fd + real (length ixs)
           \<and> ((\<forall>w \<in> set fd. 1 \<le> w) \<longrightarrow> (\<forall>w \<in> set fd'. 1 \<le> w))
           \<and> map fst pos' = map fst pos @ first_seen (map fst pos) (map fst ixs)
           \<and> (\<forall>u. dict_get pos' u [] = dict_get pos u [] @ positives_of u ixs)"
  using assms
proof (induction ixs arbitrary: fd pos)
  case Nil
  then show ?case by (simp add: positives_of_def)
next
  case (Cons p ixs)
  obtain user_id item_id where p: "p = (user_id, item_id)" by (cases p)
  from Cons.prems p obtain j where j: "np_index (length fd) item_id = Inr j"
    using np_index_valid [of "length fd" item_id] by auto
  then have jlt: "j < length fd" by (rule np_index_bound)
  let ?fd = "fd[j := fd ! j + 1]"
  let ?pos = "dict_set pos user_id (dict_get pos user_id [] @ [item_id])"
  have "\<forall>q \<in> set ixs. - int (length ?fd) \<le> snd q \<and> snd q < int (length ?fd)"
    using Cons.prems by simp
  from Cons.IH [OF this, of ?pos] obtain fd' pos' where
    run: "make_pos_loop ixs ?fd ?pos = Inr (fd', pos')" and
    len: "length fd' = length ?fd" and
    tot: "sum_list fd' = sum_list ?fd + real (length ixs)" and
    ge: "(\<forall>w \<in> set ?fd. 1 \<le> w) \<longrightarrow> (\<forall>w \<in> set fd'. 1 \<le> w)" and
    keys: "map fst pos' = map fst ?pos @ first_seen (map fst ?pos) (map fst ixs)" and
    vals: "\<forall>u. dict_get pos' u [] = dict_get ?pos u [] @ positives_of u ixs"
    by blast
  have 1: "make_pos_loop (p # ixs) fd pos = Inr (fd', pos')"
    using p j run by simp
  have 2: "length fd' = length fd" using len by simp
  have 3: "sum_list fd' = sum_list fd + real (length (p # ixs))"
    using tot sum_list_bump [OF jlt] by simp
  have 4: "(\<forall>w \<in> set fd. 1 \<le> w) \<longrightarrow> (\<forall>w \<in> set fd'. 1 \<le> w)"
  proof
    assume a: "\<forall>w \<in> set fd. 1 \<le> w"
    have "\<forall>w \<in> set ?fd. 1 \<le> w"
    proof
      fix w assume "w \<in> set ?fd"
      then have "w \<in> insert (fd ! j + 1) (set fd)"
        using set_update_subset_insert by fastforce
      moreover have "1 \<le> fd ! j" using a jlt by simp
      ultimately show "1 \<le> w" using a by auto
    qed
    with ge show "\<forall>w \<in> set fd'. 1 \<le> w" by blast
  qed
  have 5: "map fst pos' = map fst pos @ first_seen (map fst pos) (map fst (p # ixs))"
    using keys p by (auto simp: keys_dict_set)
  have 6: "\<forall>u. dict_get pos' u [] = dict_get pos u [] @ positives_of u (p # ixs)"
    using vals p by (auto simp: dict_get_set positives_of_def)
  from 1 2 3 4 5 6 show ?case by blast
qed

text \<open>An item id outside \<open>[-items_size, items_size)\<close> raises at the first
  interaction that holds it.\<close>

lemma make_pos_loop_out_of_range:
  "item_id < - int (length fd) \<or> int (length fd) \<le> item_id \<Longrightarrow>
     make_pos_loop ((user_id, item_id) # rest) fd pos = Inl IndexError"
  by (auto simp: np_index_def)

lemma set_first_seen: "set (first_seen seen xs) = set xs - set seen"
  by (induction xs arbitrary: seen) auto

lemma example_datasets_post_init:
  "post_init [(0, 1), (0, 2), (1, 2)] [(0, ''u0''), (1, ''u1'')]
     [(0, ''i0''), (1, ''i1''), (2, ''i2''), (3, ''i3'')] = Inr example_datasets"
  by (simp add: post_init_def max_id_def example_datasets_def)

text \<open>
  Claim C5.  When every item id of the interaction list addresses an entry of the
  frequency array (\<open>items_size\<close> is not negative and each id lies in
  \<open>[-items_size, items_size)\<close>, which includes every valid id
  \<open>0 \<le> id < items_size\<close>), \<open>make_pos_distributions\<close> returns a frequency
  array of length \<open>items_size\<close> whose entries are all at least 1 and sum to
  \<open>items_size\<close> plus the number of interactions, and a mapping whose keys are the
  users in the order of their first interaction and whose value for a user is the
  list of that user's items in the order of the interactions, duplicates kept.
  With four items the interactions \<open>[(0,1),(0,2),(1,2)]\<close> give the array
  \<open>[1,2,3,1]\<close> and the mapping \<open>{0: [1,2], 1: [2]}\<close>.
\<close>

theorem make_pos_distributions_spec:
  "(0 \<le> items_size self
      \<and> (\<forall>p \<in> set ixs. - items_size self \<le> snd p \<and> snd p < items_size self)
    \<longrightarrow>
      (\<exists>freq_dist pos_interactions.
         make_pos_distributions self ixs = Inr (freq_dist, pos_interactions)
         \<and> int (length freq_dist) = items_size self
         \<and> (\<forall>w \<in> set freq_dist. 1 \<le> w)
         \<and> sum_list freq_dist = real_of_int (items_size self) + real (length ixs)
         \<and> map fst pos_interactions = first_seen [] (map fst ixs)
         \<and> (\<forall>u \<in> set (map fst ixs). u \<in> set (map fst pos_interactions))
         \<and> (\<forall>u. dict_get pos_interactions u [] = positives_of u ixs)))
   \<and> (items_size self = 4 \<longrightarrow>
        make_pos_distributions self [(0, 1), (0, 2), (1, 2)]
          = Inr ([1, 2, 3, 1], [(0, [1, 2]), (1, [2])]))"
proof (intro conjI impI)
  assume a: "0 \<le> items_size self
      \<and> (\<forall>p \<in> set ixs. - items_size self \<le> snd p \<and> snd p < items_size self)"
  let ?fd = "replicate (nat (items_size self)) (1::real)"
  have ones: "np_ones (items_size self) = Inr ?fd"
    using a by (simp add: np_ones_def)
  have "\<forall>p \<in> set ixs. - int (length ?fd) \<le> snd p \<and> snd p < int (length ?fd)"
    using a by simp
  from make_pos_loop_ok [OF this, of "[]"] obtain fd' pos' where
    run: "make_pos_loop ixs ?fd [] = Inr (fd', pos')" and
    len: "length fd' = length ?fd" and
    tot: "sum_list fd' = sum_list ?fd + real (length ixs)" and
    ge: "(\<forall>w \<in> set ?fd. 1 \<le> w) \<longrightarrow> (\<forall>w \<in> set fd'. 1 \<le> w)" and
    keys: "map fst pos' = map fst ([] :: (int, int list) py_dict)
             @ first_seen (map fst ([] :: (int, int list) py_dict)) (map fst ixs)" and
    vals: "\<forall>u. dict_get pos' u [] = dict_get [] u [] @ positives_of u ixs"
    by blast
  have 1: "make_pos_distributions self ixs = Inr (fd', pos')"
    using ones run by (simp add: make_pos_distributions_def)
  have 2: "int (length fd') = items_size self" using len a by simp
  have 3: "\<forall>w \<in> set fd'. 1 \<le> w" using ge by simp
  have 4: "sum_list fd' = real_of_int (items_size self) + real (length ixs)"
    using tot a by (simp add: sum_list_replicate)
  have 5: "map fst pos' = first_seen [] (map fst ixs)" using keys by simp
  have 6: "\<forall>u \<in> set (map fst ixs). u \<in> set (map fst pos')"
    unfolding 5 by (simp add: set_first_seen)
  have 7: "\<forall>u. dict_get pos' u [] = positives_of u ixs" using vals by simp
  from 1 2 3 4 5 6 7
  show "\<exists>freq_dist pos_interactions.
         make_pos_distributions self ixs = Inr (freq_dist, pos_interactions)
         \<and> int (length freq_dist) = items_size self
         \<and> (\<forall>w \<in> set freq_dist. 1 \<le> w)
         \<and> sum_list freq_dist = real_of_int (items_size self) + real (length ixs)
         \<and> map fst pos_interactions = first_seen [] (map fst ixs)
         \<and> (\<forall>u \<in> set (map fst ixs). u \<in> set (map fst pos_interactions))
         \<and> (\<forall>u. dict_get pos_interactions u [] = positives_of u ixs)"
    by blast
next
  assume "items_size self = 4"
  then show "make_pos_distributions self [(0, 1), (0, 2), (1, 2)]
          = Inr ([1, 2, 3, 1], [(0, [1, 2]), (1, [2])])"
    by (simp add: make_pos_distributions_def np_ones_def np_index_def numeral_eq_Suc)
qed

theorem make_pos_distributions_spec_witness:
  "make_pos_distributions example_datasets (interactions example_datasets)
     = Inr ([1, 2, 3, 1], [(0, [1, 2]), (1, [2])])
   \<and> sum_list [1, 2, 3, 1 :: real]
       = real_of_int (items_size example_datasets)
         + real (length (interactions example_datasets))
   \<and> positives_of 0 (interactions example_datasets) = [1, 2]"
  using make_pos_distributions_spec
          [of example_datasets "interactions example_datasets"]
  by (simp add: example_datasets_def positives_of_def)

section \<open>Properties of \<open>neg_choice\<close>\<close>

lemma distinct_first_seen: "distinct (first_seen seen xs)"
  by (induction xs arbitrary: seen) (auto simp: set_first_seen)

lemma length_first_seen: "length (first_seen seen xs) \<le> length xs"
  by (induction xs arbitrary: seen) (auto simp: le_SucI)

lemma length_zero_at: "length (zero_at p js) = length p"
  unfolding zero_at_def by (induction js arbitrary: p) auto

lemma nth_zero_at:
  "i < length p \<Longrightarrow> zero_at p js ! i = (if i \<in> set js then 0 else p ! i)"
  unfolding zero_at_def
proof (induction js arbitrary: p)
  case Nil
  then show ?case by simp
next
  case (Cons j js)
  have "i < length (p[j := 0])" using Cons.prems by simp
  from Cons.IH [OF this] show ?case
    using Cons.prems by (auto simp: nth_list_update)
qed

lemma zero_at_nonneg:
  assumes "\<forall>v \<in> set p. 0 \<le> v"
  shows "\<forall>v \<in> set (zero_at p js). 0 \<le> v"
proof
  fix v assume "v \<in> set (zero_at p js)"
  then obtain i where i: "i < length (zero_at p js)" and v: "v = zero_at p js ! i"
    by (auto simp: in_set_conv_nth)
  then have "i < length p" by (simp add: length_zero_at)
  then show "0 \<le> v" using v assms by (simp add: nth_zero_at)
qed

lemma sum_list_nonneg_ball:
  fixes p :: "real list"
  shows "\<forall>v \<in> set p. 0 \<le> v \<Longrightarrow> 0 \<le> sum_list p"
  by (induction p) auto

lemma sum_list_zero_all:
  fixes p :: "real list"
  shows "\<forall>v \<in> set p. 0 \<le> v \<Longrightarrow> sum_list p = 0 \<Longrightarrow> \<forall>v \<in> set p. v = 0"
  by (simp add: sum_list_nonneg_eq_0_iff)

lemma sum_list_pos:
  fixes p :: "real list"
  assumes "\<forall>v \<in> set p. 0 \<le> v" and "i < length p" and "0 < p ! i"
  shows "0 < sum_list p"
proof -
  have "0 \<le> sum_list p" using assms(1) by (simp add: sum_list_nonneg)
  moreover have "sum_list p \<noteq> 0"
  proof
    assume "sum_list p = 0"
    then have "\<forall>v \<in> set p. v = 0"
      using assms(1) by (simp add: sum_list_nonneg_eq_0_iff)
    then show False using assms(2,3) by (metis less_irrefl nth_mem)
  qed
  ultimately show ?thesis by simp
qed

lemma random_sample_range:
  "x \<in> set (fst (random_sample g n)) \<Longrightarrow> 0 \<le> x \<and> x < 1"
proof -
  assume "x \<in> set (fst (random_sample g n))"
  then obtain i where x: "x = real_of_int (g i mod 2 ^ 53) / 2 ^ 53"
    by (auto simp: random_sample_def)
  have "0 \<le> g i mod 2 ^ 53" and "g i mod 2 ^ 53 < 2 ^ 53" by simp_all
  then have "0 \<le> real_of_int (g i mod 2 ^ 53)" and "real_of_int (g i mod 2 ^ 53) < 2 ^ 53"
    by (simp, metis of_int_less_iff of_int_numeral of_int_power)
  then show ?thesis unfolding x by simp
qed

lemma length_random_sample: "length (fst (random_sample g n)) = n"
  by (simp add: random_sample_def)

lemma searchsorted_right_props:
  assumes "cdf \<noteq> []" and "x < last cdf"
  shows "searchsorted_right cdf x < length cdf"
    and "x < cdf ! searchsorted_right cdf x"
    and "\<forall>i < searchsorted_right cdf x. cdf ! i \<le> x"
proof -
  let ?P = "\<lambda>c. c \<le> x"
  let ?j = "length (takeWhile ?P cdf)"
  have le: "?j \<le> length cdf" by (rule length_takeWhile_le)
  have "?j \<noteq> length cdf"
  proof
    assume "?j = length cdf"
    then have "takeWhile ?P cdf = cdf"
      by (metis takeWhile_eq_take take_all order_refl)
    then have "\<forall>c \<in> set cdf. c \<le> x" by (metis set_takeWhileD)
    then have "last cdf \<le> x" using assms(1) by simp
    with assms(2) show False by simp
  qed
  with le have lt: "?j < length cdf" by simp
  then show "searchsorted_right cdf x < length cdf" by (simp add: searchsorted_right_def)
  from nth_length_takeWhile [OF lt] show "x < cdf ! searchsorted_right cdf x"
    by (simp add: searchsorted_right_def)
  show "\<forall>i < searchsorted_right cdf x. cdf ! i \<le> x"
  proof (intro allI impI)
    fix i assume "i < searchsorted_right cdf x"
    then have i: "i < ?j" by (simp add: searchsorted_right_def)
    then have "takeWhile ?P cdf ! i = cdf ! i" by (rule takeWhile_nth)
    moreover have "takeWhile ?P cdf ! i \<in> set (takeWhile ?P cdf)" using i by simp
    ultimately show "cdf ! i \<le> x" by (metis set_takeWhileD)
  qed
qed

lemma nth_np_cumsum:
  "i < length p \<Longrightarrow> np_cumsum p ! i = sum_list (take i p) + p ! i"
  by (simp add: np_cumsum_def take_Suc_conv_app_nth)

lemma length_np_cumsum: "length (np_cumsum p) = length p"
  by (simp add: np_cumsum_def)

lemma last_np_cumsum: "p \<noteq> [] \<Longrightarrow> last (np_cumsum p) = sum_list p"
  by (simp add: np_cumsum_def last_map)

lemma searchsorted_cdf_pos:
  assumes nonneg: "\<forall>v \<in> set p. 0 \<le> v" and pos: "0 < sum_list p"
    and x: "0 \<le> x" "x < 1"
  shows "searchsorted_right (map (\<lambda>c. c / last (np_cumsum p)) (np_cumsum p)) x < length p
         \<and> 0 < p ! searchsorted_right (map (\<lambda>c. c / last (np_cumsum p)) (np_cumsum p)) x"
proof -
  let ?T = "sum_list p"
  let ?cdf = "map (\<lambda>c. c / last (np_cumsum p)) (np_cumsum p)"
  let ?j = "searchsorted_right ?cdf x"
  have ne: "p \<noteq> []" using pos by auto
  have T: "last (np_cumsum p) = ?T" using ne by (rule last_np_cumsum)
  have len: "length ?cdf = length p" by (simp add: length_np_cumsum)
  have cne: "?cdf \<noteq> []" using ne len by (metis length_0_conv)
  have "np_cumsum p \<noteq> []" using ne length_np_cumsum [of p] by (metis length_0_conv)
  then have "last ?cdf = ?T / ?T" using T by (simp add: last_map)
  then have "last ?cdf = 1" using pos by simp
  then have xl: "x < last ?cdf" using x by simp
  from searchsorted_right_props [OF cne xl]
  have j: "?j < length ?cdf" and above: "x < ?cdf ! ?j" and below: "\<forall>i < ?j. ?cdf ! i \<le> x"
    by blast+
  have jp: "?j < length p" using j len by simp
  have cj: "?cdf ! ?j = (sum_list (take ?j p) + p ! ?j) / ?T"
    using jp T by (simp add: nth_np_cumsum length_np_cumsum)
  have prev: "sum_list (take ?j p) / ?T \<le> x"
  proof (cases "?j")
    case 0
    then show ?thesis using x by simp
  next
    case (Suc k)
    then have k: "k < ?j" by simp
    then have kp: "k < length p" using jp by simp
    have "?cdf ! k \<le> x" using below k by blast
    moreover have "?cdf ! k = (sum_list (take k p) + p ! k) / ?T"
      using kp T by (simp add: nth_np_cumsum length_np_cumsum)
    moreover have "sum_list (take ?j p) = sum_list (take k p) + p ! k"
      using Suc kp by (simp add: take_Suc_conv_app_nth)
    ultimately show ?thesis by simp
  qed
  have "sum_list (take ?j p) / ?T < (sum_list (take ?j p) + p ! ?j) / ?T"
    using prev above cj by simp
  then have "0 < p ! ?j" using pos by (simp add: divide_less_cancel)
  with jp show ?thesis by blast
qed

lemma choice_new_props:
  assumes "\<forall>v \<in> set p. 0 \<le> v" and "0 < sum_list p"
    and "\<forall>x \<in> set xs. 0 \<le> x \<and> x < 1"
  shows "\<forall>j \<in> set (choice_new p xs). j < length p \<and> 0 < p ! j"
    and "distinct (choice_new p xs)"
    and "length (choice_new p xs) \<le> length xs"
proof -
  show "\<forall>j \<in> set (choice_new p xs). j < length p \<and> 0 < p ! j"
    using assms searchsorted_cdf_pos [OF assms(1,2)]
    by (auto simp: choice_new_def Let_def set_first_seen)
  show "distinct (choice_new p xs)"
    by (simp add: choice_new_def Let_def distinct_first_seen)
  show "length (choice_new p xs) \<le> length xs"
    using length_first_seen
            [of "[]" "map (searchsorted_right (map (\<lambda>c. c / last (np_cumsum p)) (np_cumsum p))) xs"]
    by (simp add: choice_new_def Let_def)
qed


lemma choice_loop_props:
  assumes "\<forall>v \<in> set p. 0 \<le> v"
    and "distinct found"
    and "\<forall>i \<in> set found. i < length p"
    and "length found \<le> sz"
    and "sz \<le> length found + card {i. i < length p \<and> 0 < p ! i \<and> i \<notin> set found}"
  shows "length (fst (choice_loop g p found sz)) = sz
         \<and> distinct (fst (choice_loop g p found sz))
         \<and> (\<forall>i \<in> set (fst (choice_loop g p found sz)).
               i < length p \<and> (i \<in> set found \<or> 0 < p ! i))"
  using assms
proof (induction g p found sz rule: choice_loop.induct)
  case (1 g p found sz)
  show ?case
  proof (cases "length found < sz")
    case False
    then have "choice_loop g p found sz = (found, g)"
      by (simp add: choice_loop.simps [of g p found sz])
    then show ?thesis using False "1.prems" by simp
  next
    case True
    let ?m = "sz - length found"
    let ?x = "fst (random_sample g ?m)"
    let ?g' = "snd (random_sample g ?m)"
    let ?p' = "zero_at p found"
    let ?new = "choice_new ?p' ?x"
    let ?A = "{i. i < length p \<and> 0 < p ! i \<and> i \<notin> set found}"
    have unfold: "choice_loop g p found sz = choice_loop ?g' ?p' (found @ ?new) sz"
      using True by (simp add: choice_loop.simps [of g p found sz])
    have nonneg': "\<forall>v \<in> set ?p'. 0 \<le> v"
      using "1.prems"(1) by (rule zero_at_nonneg)
    have "0 < card ?A" using True "1.prems"(5) by simp
    then have "?A \<noteq> {}" by (metis card.empty less_irrefl)
    then obtain a where a: "a < length p" "0 < p ! a" "a \<notin> set found" by blast
    then have "a < length ?p'" and "0 < ?p' ! a"
      by (simp_all add: length_zero_at nth_zero_at)
    with nonneg' have sum': "0 < sum_list ?p'" by (rule sum_list_pos)
    have xr: "\<forall>x \<in> set ?x. 0 \<le> x \<and> x < 1"
      using random_sample_range by blast
    note cn = choice_new_props [OF nonneg' sum' xr]
    have new_pos: "\<forall>j \<in> set ?new. j < length p \<and> 0 < p ! j \<and> j \<notin> set found"
    proof
      fix j assume "j \<in> set ?new"
      with cn(1) have j: "j < length ?p'" "0 < ?p' ! j" by blast+
      then have jl: "j < length p" by (simp add: length_zero_at)
      with j(2) show "j < length p \<and> 0 < p ! j \<and> j \<notin> set found"
        by (auto simp: nth_zero_at split: if_splits)
    qed
    have new_len: "length ?new \<le> ?m"
      using cn(3) by (simp add: length_random_sample)
    have p1: "distinct (found @ ?new)"
      using "1.prems"(2) cn(2) new_pos by auto
    have p2: "\<forall>i \<in> set (found @ ?new). i < length ?p'"
      using "1.prems"(3) new_pos by (auto simp: length_zero_at)
    have p3: "length (found @ ?new) \<le> sz"
      using new_len True by simp
    let ?B = "{i. i < length ?p' \<and> 0 < ?p' ! i \<and> i \<notin> set (found @ ?new)}"
    have B: "?B = ?A - set ?new"
      by (auto simp: length_zero_at nth_zero_at)
    have "finite (set ?new)" by simp
    then have "card ?A - card (set ?new) \<le> card (?A - set ?new)"
      by (rule diff_card_le_card_Diff)
    moreover have "card (set ?new) = length ?new"
      using cn(2) by (rule distinct_card)
    ultimately have "card ?A \<le> card ?B + length ?new" using B by simp
    then have p4: "sz \<le> length (found @ ?new) + card ?B"
      using "1.prems"(5) by simp
    from "1.IH" [OF True nonneg' p1 p2 p3 p4]
    have ih: "length (fst (choice_loop ?g' ?p' (found @ ?new) sz)) = sz
         \<and> distinct (fst (choice_loop ?g' ?p' (found @ ?new) sz))
         \<and> (\<forall>i \<in> set (fst (choice_loop ?g' ?p' (found @ ?new) sz)).
               i < length ?p' \<and> (i \<in> set (found @ ?new) \<or> 0 < ?p' ! i))" .
    have "\<forall>i \<in> set (fst (choice_loop ?g' ?p' (found @ ?new) sz)).
               i < length p \<and> (i \<in> set found \<or> 0 < p ! i)"
    proof
      fix i assume "i \<in> set (fst (choice_loop ?g' ?p' (found @ ?new) sz))"
      with ih have i: "i < length ?p'" "i \<in> set (found @ ?new) \<or> 0 < ?p' ! i" by blast+
      then have il: "i < length p" by (simp add: length_zero_at)
      from i(2) il new_pos show "i < length p \<and> (i \<in> set found \<or> 0 < p ! i)"
        by (auto simp: nth_zero_at split: if_splits)
    qed
    with ih show ?thesis unfolding unfold by blast
  qed
qed

lemma choice_loop_from_empty:
  assumes "\<forall>v \<in> set p. 0 \<le> v" and "sz \<le> length (filter (\<lambda>x. 0 < x) p)"
  shows "length (fst (choice_loop g p [] sz)) = sz
         \<and> distinct (fst (choice_loop g p [] sz))
         \<and> (\<forall>i \<in> set (fst (choice_loop g p [] sz)). i < length p \<and> 0 < p ! i)"
proof -
  have "length (filter (\<lambda>x. 0 < x) p) = card {i. i < length p \<and> 0 < p ! i}"
    by (rule length_filter_conv_card)
  then have "sz \<le> length ([] :: nat list) + card {i. i < length p \<and> 0 < p ! i \<and> i \<notin> set []}"
    using assms(2) by simp
  from choice_loop_props [OF assms(1) _ _ _ this, of g] show ?thesis by simp
qed

text \<open>What \<open>np.random.choice\<close> returns: \<open>ValueError\<close> and an untouched generator,
  or as many distinct positions of positive probability as were asked for.\<close>

lemma random_choice_cases:
  "random_choice g a sz p_opt = (Inl ValueError, g)
   \<or> (\<exists>p r g'. p_opt = Some p \<and> random_choice g a sz p_opt = (Inr (map (\<lambda>i. a ! i) r), g')
         \<and> int (length r) = sz \<and> distinct r
         \<and> (\<forall>i \<in> set r. i < length a \<and> 0 < p ! i))"
proof (cases p_opt)
  case None
  then show ?thesis by (simp add: random_choice_def)
next
  case (Some p)
  show ?thesis
  proof (cases "(a = [] \<and> sz \<noteq> 0) \<or> length p \<noteq> length a
             \<or> (\<exists>x \<in> set p. x < 0) \<or> \<bar>sum_list p - 1\<bar> > 1 / 2 ^ 26
             \<or> int (length a) < sz \<or> sz < 0
             \<or> int (length (filter (\<lambda>x. 0 < x) p)) < sz")
    case True
    then show ?thesis using Some by (simp add: random_choice_def)
  next
    case False
    then have nonneg: "\<forall>v \<in> set p. 0 \<le> v" by (auto simp: not_less)
    from False have "nat sz \<le> length (filter (\<lambda>x. 0 < x) p)" by auto
    from choice_loop_from_empty [OF nonneg this, of g]
    have cl: "length (fst (choice_loop g p [] (nat sz))) = nat sz"
      "distinct (fst (choice_loop g p [] (nat sz)))"
      "\<forall>i \<in> set (fst (choice_loop g p [] (nat sz))). i < length p \<and> 0 < p ! i"
      by blast+
    have run: "random_choice g a sz p_opt
                 = (Inr (map (\<lambda>i. a ! i) (fst (choice_loop g p [] (nat sz)))),
                    snd (choice_loop g p [] (nat sz)))"
      using False Some by (simp add: random_choice_def)
    have "int (length (fst (choice_loop g p [] (nat sz)))) = sz"
      using cl(1) False by auto
    moreover have "\<forall>i \<in> set (fst (choice_loop g p [] (nat sz))). i < length a \<and> 0 < p ! i"
      using cl(3) False by auto
    ultimately show ?thesis using Some run cl(2) by blast
  qed
qed


lemma random_choice_infeasible:
  "int (length (filter (\<lambda>x. 0 < x) p)) < sz \<Longrightarrow>
     random_choice g a sz (Some p) = (Inl ValueError, g)"
  by (simp add: random_choice_def)

lemma random_choice_ok:
  assumes "length p = length a" and "\<forall>v \<in> set p. 0 \<le> v" and "sum_list p = 1"
    and "0 \<le> sz" and "sz \<le> int (length (filter (\<lambda>x. 0 < x) p))"
  shows "\<exists>r g'. random_choice g a sz (Some p) = (Inr (map (\<lambda>i. a ! i) r), g')
           \<and> int (length r) = sz \<and> distinct r
           \<and> (\<forall>i \<in> set r. i < length a \<and> 0 < p ! i)"
proof -
  have "length (filter (\<lambda>x. 0 < x) p) \<le> length p" by (rule length_filter_le)
  then have le: "sz \<le> int (length a)" using assms(1,5) by simp
  then have "\<not> (a = [] \<and> sz \<noteq> 0)" using assms(4) by auto
  moreover have "\<not> (\<exists>x \<in> set p. x < 0)" using assms(2) by (auto simp: not_less)
  ultimately have "random_choice g a sz (Some p) \<noteq> (Inl ValueError, g)"
    using assms le by (simp add: random_choice_def)
  with random_choice_cases [of g a sz "Some p"] show ?thesis by auto
qed

lemma sum_list_normalized:
  fixes xs :: "real list"
  shows "sum_list xs \<noteq> 0 \<Longrightarrow> sum_list (map (\<lambda>x. x / sum_list xs) xs) = 1"
proof -
  have "sum_list (map (\<lambda>x. x / c) xs) = sum_list xs / c" for c :: real
    by (induction xs) (simp_all add: add_divide_distrib)
  then show "sum_list xs \<noteq> 0 \<Longrightarrow> sum_list (map (\<lambda>x. x / sum_list xs) xs) = 1"
    by simp
qed

lemma np_indices_valid:
  "\<forall>i \<in> set idx. 0 \<le> i \<and> i < int n \<Longrightarrow> np_indices n idx = Inr (map nat idx)"
  by (induction idx) (auto simp: np_index_def)

lemma np_indices_length: "np_indices n idx = Inr js \<Longrightarrow> \<forall>j \<in> set js. j < n"
proof (induction idx arbitrary: js)
  case Nil
  then show ?case by simp
next
  case (Cons i idx)
  then show ?case
    by (auto split: sum.splits dest: np_index_bound)
qed

lemma np_set_zero_entries:
  assumes "np_set_zero a idx = Inr c"
  shows "length c = length a" and "\<forall>i < length a. c ! i = 0 \<or> c ! i = a ! i"
proof -
  from assms obtain js where c: "c = zero_at a js"
    by (auto simp: np_set_zero_def split: if_splits sum.splits)
  show "length c = length a" by (simp add: c length_zero_at)
  show "\<forall>i < length a. c ! i = 0 \<or> c ! i = a ! i" by (simp add: c nth_zero_at)
qed

lemma np_set_zero_nonneg:
  assumes "np_set_zero a idx = Inr c" and "\<forall>w \<in> set a. 0 \<le> w"
  shows "\<forall>i < length c. 0 \<le> c ! i"
proof (intro allI impI)
  fix i assume "i < length c"
  then have i: "i < length a" using np_set_zero_entries(1) [OF assms(1)] by simp
  then have "c ! i = 0 \<or> c ! i = a ! i" using np_set_zero_entries(2) [OF assms(1)] by blast
  moreover have "0 \<le> a ! i" using assms(2) i by simp
  ultimately show "0 \<le> c ! i" by auto
qed

lemma set_np_argsort: "set (np_argsort a) = {0..<length a}"
  by (simp add: np_argsort_def)

lemma distinct_np_argsort: "distinct (np_argsort a)"
  by (simp add: np_argsort_def)

lemma length_np_argsort: "length (np_argsort a) = length a"
  by (simp add: np_argsort_def)

lemma sorted_np_argsort: "sorted (map (\<lambda>i. a ! i) (np_argsort a))"
  unfolding np_argsort_def by (rule sorted_sort_key)

lemma item_id_to_choice_suffix:
  "\<exists>d. item_id_to_choice w fm = drop d (np_argsort w)"
  by (auto simp: item_id_to_choice_def slice_from_def Let_def)

lemma distinct_item_id_to_choice: "distinct (item_id_to_choice w fm)"
proof -
  obtain d where d: "item_id_to_choice w fm = drop d (np_argsort w)"
    using item_id_to_choice_suffix by blast
  show ?thesis unfolding d using distinct_np_argsort by (rule distinct_drop)
qed

lemma set_item_id_to_choice: "set (item_id_to_choice w fm) \<subseteq> {0..<length w}"
proof -
  obtain d where d: "item_id_to_choice w fm = drop d (np_argsort w)"
    using item_id_to_choice_suffix by blast
  show ?thesis
    unfolding d using set_drop_subset [of d "np_argsort w"] set_np_argsort [of w] by blast
qed

lemma item_id_to_choice_top:
  assumes "i \<in> set (item_id_to_choice w fm)" and "j < length w"
    and "j \<notin> set (item_id_to_choice w fm)"
  shows "w ! j \<le> w ! i"
proof -
  obtain d where d: "item_id_to_choice w fm = drop d (np_argsort w)"
    using item_id_to_choice_suffix by blast
  let ?s = "np_argsort w"
  have "sorted (map (\<lambda>i. w ! i) (take d ?s @ drop d ?s))"
    using sorted_np_argsort [of w] by simp
  then have both: "\<forall>a \<in> set (take d ?s). \<forall>b \<in> set (drop d ?s). w ! a \<le> w ! b"
    unfolding map_append sorted_append by auto
  have "j \<in> set ?s" using assms(2) by (simp add: set_np_argsort)
  moreover have "set ?s = set (take d ?s) \<union> set (drop d ?s)"
    by (metis append_take_drop_id set_append)
  ultimately have "j \<in> set (take d ?s)" using assms(3) d by auto
  with both assms(1) d show ?thesis by auto
qed

text \<open>
  Rounding to \<open>float64\<close> never crosses an integer, as long as the integers
  themselves are \<open>float64\<close> numbers (below \<open>2^53\<close>).
\<close>

lemma float64_exponent_le:
  assumes "\<bar>x\<bar> < 2 ^ 53"
  shows "float64_exponent \<bar>x\<bar> \<le> 52"
proof (cases "1 \<le> \<bar>x\<bar>")
  case True
  have "\<lfloor>\<bar>x\<bar>\<rfloor> < 2 ^ 53" using assms by (simp add: floor_less_iff)
  then have "bitlen \<lfloor>\<bar>x\<bar>\<rfloor> \<le> 53" using bitlen_le_iff_power [of "\<lfloor>\<bar>x\<bar>\<rfloor>" 53] by simp
  then show ?thesis using True by (simp add: float64_exponent_def)
next
  case False
  have "0 \<le> bitlen (\<lceil>1 / \<bar>x\<bar>\<rceil> - 1)" by (rule bitlen_nonneg)
  then show ?thesis using False by (simp add: float64_exponent_def)
qed

lemma round_half_even_ge: "\<lfloor>q\<rfloor> \<le> round_half_even q"
  by (simp add: round_half_even_def Let_def)

lemma round_half_even_le: "round_half_even q \<le> \<lceil>q\<rceil>"
proof (cases "q = of_int \<lfloor>q\<rfloor>")
  case True
  then have "q - of_int \<lfloor>q\<rfloor> = 0" by simp
  then show ?thesis by (simp add: round_half_even_def Let_def)
next
  case False
  then have "\<lceil>q\<rceil> = \<lfloor>q\<rfloor> + 1" by (simp add: ceiling_altdef)
  then show ?thesis by (simp add: round_half_even_def Let_def)
qed

lemma float64_round_scaled:
  assumes "\<bar>x\<bar> < 2 ^ 53"
  shows "\<exists>i. float64_round x = of_int (round_half_even (x * 2 ^ i)) / 2 ^ i"
proof -
  define e where "e = float64_exponent \<bar>x\<bar>"
  define i where "i = nat (52 - e)"
  have "e \<le> 52" unfolding e_def using assms by (rule float64_exponent_le)
  then have "e - 52 = - int i" by (simp add: i_def)
  then have "(2 :: real) powi (e - 52) = inverse (2 ^ i)"
    by (simp add: power_int_minus)
  then have "float64_round x = of_int (round_half_even (x * 2 ^ i)) / 2 ^ i"
    by (simp add: float64_round_def Let_def e_def divide_inverse)
  then show ?thesis ..
qed

lemma float64_round_ge:
  assumes "\<bar>x\<bar> < 2 ^ 53" and "of_int m \<le> x"
  shows "of_int m \<le> float64_round x"
proof -
  obtain i where i: "float64_round x = of_int (round_half_even (x * 2 ^ i)) / 2 ^ i"
    using float64_round_scaled [OF assms(1)] by blast
  have "of_int (m * 2 ^ i) \<le> x * 2 ^ i" using assms(2) by simp
  then have "m * 2 ^ i \<le> \<lfloor>x * 2 ^ i\<rfloor>" by (simp only: le_floor_iff)
  also have "\<dots> \<le> round_half_even (x * 2 ^ i)" by (rule round_half_even_ge)
  finally have "real_of_int (m * 2 ^ i) \<le> real_of_int (round_half_even (x * 2 ^ i))"
    by (simp only: of_int_le_iff)
  then have "of_int m * 2 ^ i \<le> real_of_int (round_half_even (x * 2 ^ i))" by simp
  then show ?thesis unfolding i by (simp add: pos_le_divide_eq)
qed

lemma float64_round_le:
  assumes "\<bar>x\<bar> < 2 ^ 53" and "x \<le> of_int m"
  shows "float64_round x \<le> of_int m"
proof -
  obtain i where i: "float64_round x = of_int (round_half_even (x * 2 ^ i)) / 2 ^ i"
    using float64_round_scaled [OF assms(1)] by blast
  have "x * 2 ^ i \<le> of_int (m * 2 ^ i)" using assms(2) by simp
  then have "\<lceil>x * 2 ^ i\<rceil> \<le> m * 2 ^ i" by (simp only: ceiling_le_iff)
  with round_half_even_le [of "x * 2 ^ i"] have "round_half_even (x * 2 ^ i) \<le> m * 2 ^ i"
    by (rule order_trans)
  then have "real_of_int (round_half_even (x * 2 ^ i)) \<le> real_of_int (m * 2 ^ i)"
    by (simp only: of_int_le_iff)
  then have "real_of_int (round_half_even (x * 2 ^ i)) \<le> of_int m * 2 ^ i" by simp
  then show ?thesis unfolding i by (simp add: pos_divide_le_eq)
qed

lemma float_of_int_exact:
  assumes "\<bar>n\<bar> < 2 ^ 53"
  shows "float_of_int n = of_int n"
proof -
  have b: "\<bar>real_of_int n\<bar> < 2 ^ 53"
  proof -
    have "real_of_int \<bar>n\<bar> < real_of_int (2 ^ 53)" using assms by (simp only: of_int_less_iff)
    then show ?thesis by simp
  qed
  have "of_int n \<le> float64_round (of_int n)" by (rule float64_round_ge [OF b]) simp
  moreover have "float64_round (of_int n) \<le> of_int n" by (rule float64_round_le [OF b]) simp
  ultimately show ?thesis by (simp add: float_of_int_def)
qed

lemma freq_margin_num_bounds:
  assumes "0 \<le> fm" and "fm \<le> 1" and "int (length w) < 2 ^ 53"
  shows "\<lfloor>real (length w) * fm\<rfloor> \<le> freq_margin_num w fm"
    and "freq_margin_num w fm \<le> \<lceil>real (length w) * fm\<rceil>"
    and "freq_margin_num w fm \<le> int (length w)"
proof -
  let ?x = "real (length w) * fm"
  have conv: "float_of_int (int (length w)) = real (length w)"
    using assms(3) by (simp add: float_of_int_exact)
  have n53: "real (length w) < 2 ^ 53"
  proof -
    have "real_of_int (int (length w)) < real_of_int (2 ^ 53)"
      using assms(3) by (simp only: of_int_less_iff)
    then show ?thesis by simp
  qed
  have x0: "0 \<le> ?x" using assms(1) by simp
  have xn: "?x \<le> real (length w)" using assms(1,2) by (simp add: mult_left_le)
  have b: "\<bar>?x\<bar> < 2 ^ 53" using x0 xn n53 by simp
  have r0: "0 \<le> float64_round ?x" using float64_round_ge [OF b, of 0] x0 by simp
  then have k: "freq_margin_num w fm = \<lfloor>float64_round ?x\<rfloor>"
    by (simp add: freq_margin_num_def float_mul_def conv py_int_def)
  have "of_int \<lfloor>?x\<rfloor> \<le> float64_round ?x" by (rule float64_round_ge [OF b]) simp
  then show "\<lfloor>?x\<rfloor> \<le> freq_margin_num w fm" unfolding k by (simp only: le_floor_iff)
  have "float64_round ?x \<le> of_int \<lceil>?x\<rceil>" by (rule float64_round_le [OF b]) simp
  then show "freq_margin_num w fm \<le> \<lceil>?x\<rceil>" unfolding k by (simp add: floor_le_iff)
  have "float64_round ?x \<le> of_int (int (length w))"
    by (rule float64_round_le [OF b]) (use xn in simp)
  then show "freq_margin_num w fm \<le> int (length w)" unfolding k by (simp add: floor_le_iff)
qed

lemma item_id_to_choice_length:
  assumes "0 \<le> fm" and "fm \<le> 1" and "int (length w) < 2 ^ 53" and "1 \<le> freq_margin_num w fm"
  shows "length (item_id_to_choice w fm) = nat (freq_margin_num w fm)"
proof -
  let ?k = "freq_margin_num w fm"
  have kn: "?k \<le> int (length w)" using assms(1,2,3) by (rule freq_margin_num_bounds(3))
  have "item_id_to_choice w fm = drop (nat (int (length w) - ?k)) (np_argsort w)"
    using assms(4) kn
    by (simp add: item_id_to_choice_def slice_from_def Let_def length_np_argsort max_def)
  then show ?thesis using kn assms(4) by (simp add: length_np_argsort)
qed

text \<open>
  With 20 items and the default margin \<open>0.15\<close>, which denotes the
  \<open>float64\<close> number \<open>5404319552844595 / 2^55\<close>, the product rounds to
  \<open>3.0\<close> and the cut-off is 3, while the product of the real numbers is
  below 3.
\<close>

lemma default_margin_cutoff:
  "freq_margin_num (replicate 20 0) (5404319552844595 / 2 ^ 55) = 3
   \<and> \<lfloor>real (length (replicate 20 (0 :: real))) * (5404319552844595 / 2 ^ 55)\<rfloor> = 2"
  by code_simp

lemma item_id_to_choice_all: "item_id_to_choice [0, 1] 1 = [0, 1]"
  by code_simp

lemma neg_choice_unfold:
  assumes "np_set_zero freq_dist (remdups pos) = Inr c"
  shows "neg_choice g freq_dist pos fm n =
     (case random_choice g (item_id_to_choice c fm) (n * int (length (remdups pos)))
             (np_normalize (map (\<lambda>i. c ! i) (item_id_to_choice c fm))) of
        (Inl e, g') \<Rightarrow>
          if e = ValueError then (Inr (replicate (nat (n * int (length (remdups pos)))) 0), g')
          else (Inl e, g')
      | (Inr chosen, g') \<Rightarrow> (Inr (map int chosen), g'))"
  using assms by (simp add: neg_choice_def Let_def)

lemma neg_choice_error:
  "np_set_zero freq_dist (remdups pos) = Inl e \<Longrightarrow>
     neg_choice g freq_dist pos fm n = (Inl e, g)"
  by (simp add: neg_choice_def)

text \<open>With no positives the index array is an empty \<open>float64\<close> array, and the
  assignment raises before anything is sampled.\<close>

lemma neg_choice_no_positives: "neg_choice g freq_dist [] fm n = (Inl IndexError, g)"
  by (simp add: neg_choice_def np_set_zero_def)

lemma neg_choice_length:
  assumes "np_set_zero freq_dist (remdups pos) = Inr c"
  shows "\<exists>r g'. neg_choice g freq_dist pos fm n = (Inr r, g')
           \<and> length r = nat (n * int (length (remdups pos)))"
proof -
  let ?ids = "item_id_to_choice c fm"
  let ?sz = "n * int (length (remdups pos))"
  let ?p = "np_normalize (map (\<lambda>i. c ! i) ?ids)"
  from random_choice_cases [of g ?ids ?sz ?p] show ?thesis
  proof
    assume "random_choice g ?ids ?sz ?p = (Inl ValueError, g)"
    then show ?thesis unfolding neg_choice_unfold [OF assms] by simp
  next
    assume "\<exists>p r g'. ?p = Some p
         \<and> random_choice g ?ids ?sz ?p = (Inr (map (\<lambda>i. ?ids ! i) r), g')
         \<and> int (length r) = ?sz \<and> distinct r
         \<and> (\<forall>i \<in> set r. i < length ?ids \<and> 0 < p ! i)"
    then obtain r g' where
      "random_choice g ?ids ?sz ?p = (Inr (map (\<lambda>i. ?ids ! i) r), g')"
      and "int (length r) = ?sz"
      by blast
    then show ?thesis unfolding neg_choice_unfold [OF assms] by auto
  qed
qed

lemma kept_nonneg:
  assumes "np_set_zero freq_dist idx = Inr c" and "\<forall>w \<in> set freq_dist. 0 \<le> w"
  shows "\<forall>v \<in> set (map (\<lambda>i. c ! i) (item_id_to_choice c fm)). 0 \<le> v"
proof -
  have "\<forall>i \<in> set (item_id_to_choice c fm). i < length c"
    using set_item_id_to_choice [of c fm] by auto
  then show ?thesis using np_set_zero_nonneg [OF assms] by auto
qed

lemma filter_pos_normalized:
  fixes xs :: "real list"
  assumes "0 < s"
  shows "length (filter (\<lambda>x. 0 < x) (map (\<lambda>x. x / s) xs)) = length (filter (\<lambda>x. 0 < x) xs)"
  using assms by (induction xs) (auto simp: zero_less_divide_iff)

lemma filter_pos_kept:
  "length (filter (\<lambda>x. 0 < x) (map (\<lambda>i. c ! i) ids)) = length (filter (\<lambda>i. 0 < c ! i) ids)"
  by (induction ids) auto

text \<open>
  Claim C4.  Let the positives address the frequency array, so that zeroing them
  gives \<open>freq_dist_copy\<close>, and let no weight be negative.  When the requested
  count \<open>neg_per_sample * |distinct positives|\<close> exceeds the number of candidates
  that are left with a positive weight, \<open>neg_choice\<close> raises nothing: it returns
  the item id 0 repeated as many times as the requested count, and it does not
  advance the generator.
\<close>

theorem neg_choice_infeasible:
  assumes "np_set_zero freq_dist (remdups pos_item_ids) = Inr freq_dist_copy"
    and "\<forall>w \<in> set freq_dist. 0 \<le> w"
    and "int (length (filter (\<lambda>i. 0 < freq_dist_copy ! i)
                 (item_id_to_choice freq_dist_copy freq_margin)))
           < neg_per_sample * int (length (remdups pos_item_ids))"
  shows "neg_choice g freq_dist pos_item_ids freq_margin neg_per_sample
           = (Inr (replicate (nat (neg_per_sample * int (length (remdups pos_item_ids)))) 0), g)"
proof -
  let ?ids = "item_id_to_choice freq_dist_copy freq_margin"
  let ?kept = "map (\<lambda>i. freq_dist_copy ! i) ?ids"
  let ?sz = "neg_per_sample * int (length (remdups pos_item_ids))"
  have nonneg: "\<forall>v \<in> set ?kept. 0 \<le> v" using assms(1,2) by (rule kept_nonneg)
  have "random_choice g ?ids ?sz (np_normalize ?kept) = (Inl ValueError, g)"
  proof (cases "sum_list ?kept = 0")
    case True
    then show ?thesis by (simp add: np_normalize_def random_choice_def)
  next
    case False
    moreover have "0 \<le> sum_list ?kept" using nonneg by (rule sum_list_nonneg_ball)
    ultimately have s: "0 < sum_list ?kept" by simp
    have "length (filter (\<lambda>x. 0 < x) (map (\<lambda>x. x / sum_list ?kept) ?kept))
            = length (filter (\<lambda>i. 0 < freq_dist_copy ! i) ?ids)"
      using filter_pos_normalized [OF s, of ?kept] filter_pos_kept [of freq_dist_copy ?ids]
      by simp
    then have "int (length (filter (\<lambda>x. 0 < x) (map (\<lambda>x. x / sum_list ?kept) ?kept))) < ?sz"
      using assms(3) by simp
    from random_choice_infeasible [OF this] show ?thesis
      using False by (simp add: np_normalize_def)
  qed
  then show ?thesis unfolding neg_choice_unfold [OF assms(1)] by simp
qed


theorem neg_choice_infeasible_witness:
  "np_set_zero [2, 1] (remdups [0]) = Inr [0, 1]
   \<and> int (length (filter (\<lambda>i. 0 < [0, 1 :: real] ! i) (item_id_to_choice [0, 1] 1))) = 1
   \<and> neg_choice (\<lambda>i. 0) [2, 1] [0] 1 2 = (Inr [0, 0], \<lambda>i. 0)"
proof -
  have 1: "np_set_zero [2, 1] (remdups [0]) = Inr [0, 1]" by code_simp
  have 2: "\<forall>w \<in> set [2, 1 :: real]. 0 \<le> w" by simp
  have 3: "int (length (filter (\<lambda>i. 0 < [0, 1 :: real] ! i) (item_id_to_choice [0, 1] 1))) = 1"
    by code_simp
  then have 4: "int (length (filter (\<lambda>i. 0 < [0, 1 :: real] ! i) (item_id_to_choice [0, 1] 1)))
          < 2 * int (length (remdups [0 :: int]))" by simp
  from neg_choice_infeasible [OF 1 2 4, of "\<lambda>i. 0"] 1 3 show ?thesis
    by (simp add: numeral_eq_Suc)
qed

text \<open>
  Claim C10.  With the weights \<open>[2, 1]\<close>, the positives \<open>[0]\<close>, the whole
  catalogue as pool and two negatives per positive, one candidate is left for two
  draws: the fallback returns \<open>[0, 0]\<close>, which holds the excluded item 0 and
  holds it twice.
\<close>

theorem neg_choice_fallback_breaks_exclusion:
  "fst (neg_choice g [2, 1] [0] 1 2) = Inr [0, 0]
   \<and> set [0, 0] \<inter> set [0 :: int] \<noteq> {}
   \<and> \<not> distinct [0, 0 :: int]"
  by (simp add: neg_choice_def np_set_zero_def np_index_def zero_at_def item_id_to_choice_all
        np_normalize_def random_choice_def Let_def numeral_eq_Suc)

theorem neg_choice_fallback_breaks_exclusion_witness:
  "fst (neg_choice (\<lambda>i. 0) [2, 1] [0] 1 2) = Inr [0, 0]"
  using neg_choice_fallback_breaks_exclusion [of "\<lambda>i. 0"] by simp

text \<open>
  Claim C3, amended.  The cut-off \<open>k\<close> is \<open>int(len * freq_margin)\<close>, the
  \<open>float64\<close> product truncated, not the ceiling of the product.  For an
  array of fewer than \<open>2^53\<close> items and a margin in \<open>(0, 1]\<close> whose cut-off
  is at least 1, the candidates are exactly \<open>k\<close> distinct item ids, and each
  of them weighs at least as much as every id left out; \<open>k\<close> lies between the
  floor and the ceiling of the exact product, so the candidate list is not empty
  and is not longer than \<open>ceil(len * freq_margin)\<close>.
\<close>

theorem item_id_to_choice_top_cutoff:
  assumes "0 < freq_margin" and "freq_margin \<le> 1"
    and "int (length freq_dist_copy) < 2 ^ 53"
    and "1 \<le> freq_margin_num freq_dist_copy freq_margin"
  shows "length (item_id_to_choice freq_dist_copy freq_margin)
           = nat (freq_margin_num freq_dist_copy freq_margin)
         \<and> distinct (item_id_to_choice freq_dist_copy freq_margin)
         \<and> set (item_id_to_choice freq_dist_copy freq_margin) \<subseteq> {0..<length freq_dist_copy}
         \<and> (\<forall>i \<in> set (item_id_to_choice freq_dist_copy freq_margin).
               \<forall>j < length freq_dist_copy.
                 j \<notin> set (item_id_to_choice freq_dist_copy freq_margin)
                   \<longrightarrow> freq_dist_copy ! j \<le> freq_dist_copy ! i)
         \<and> item_id_to_choice freq_dist_copy freq_margin \<noteq> []
         \<and> \<lfloor>real (length freq_dist_copy) * freq_margin\<rfloor>
               \<le> freq_margin_num freq_dist_copy freq_margin
         \<and> freq_margin_num freq_dist_copy freq_margin
               \<le> \<lceil>real (length freq_dist_copy) * freq_margin\<rceil>
         \<and> length (item_id_to_choice freq_dist_copy freq_margin)
               \<le> nat \<lceil>real (length freq_dist_copy) * freq_margin\<rceil>"
proof -
  let ?ids = "item_id_to_choice freq_dist_copy freq_margin"
  let ?k = "freq_margin_num freq_dist_copy freq_margin"
  let ?x = "real (length freq_dist_copy) * freq_margin"
  have fm0: "0 \<le> freq_margin" using assms(1) by simp
  have len: "length ?ids = nat ?k"
    using fm0 assms(2,3,4) by (rule item_id_to_choice_length)
  have top: "\<forall>i \<in> set ?ids. \<forall>j < length freq_dist_copy.
               j \<notin> set ?ids \<longrightarrow> freq_dist_copy ! j \<le> freq_dist_copy ! i"
    using item_id_to_choice_top by blast
  have ne: "?ids \<noteq> []" using len assms(4) by auto
  have lo: "\<lfloor>?x\<rfloor> \<le> ?k" using fm0 assms(2,3) by (rule freq_margin_num_bounds(1))
  have hi: "?k \<le> \<lceil>?x\<rceil>" using fm0 assms(2,3) by (rule freq_margin_num_bounds(2))
  then have "nat ?k \<le> nat \<lceil>?x\<rceil>" by (rule nat_mono)
  then have le: "length ?ids \<le> nat \<lceil>?x\<rceil>" using len by simp
  from len distinct_item_id_to_choice set_item_id_to_choice top ne lo hi le
  show ?thesis by blast
qed

theorem item_id_to_choice_top_cutoff_witness:
  "(0 :: real) < 5404319552844595 / 2 ^ 55
   \<and> int (length (map real [0..<20])) < 2 ^ 53
   \<and> freq_margin_num (map real [0..<20]) (5404319552844595 / 2 ^ 55) = 3
   \<and> item_id_to_choice (map real [0..<20]) (5404319552844595 / 2 ^ 55) = [17, 18, 19]
   \<and> \<lfloor>real (length (map real [0..<20])) * (5404319552844595 / 2 ^ 55)\<rfloor> \<le> 3
   \<and> length (item_id_to_choice (map real [0..<20]) (5404319552844595 / 2 ^ 55))
         \<le> nat \<lceil>real (length (map real [0..<20])) * (5404319552844595 / 2 ^ 55)\<rceil>"
proof -
  have e: "item_id_to_choice (map real [0..<20]) (5404319552844595 / 2 ^ 55) = [17, 18, 19]"
    by code_simp
  have k: "freq_margin_num (map real [0..<20]) (5404319552844595 / 2 ^ 55) = 3"
    by code_simp
  have h: "(0 :: real) < 5404319552844595 / 2 ^ 55 \<and> (5404319552844595 / 2 ^ 55 :: real) \<le> 1
           \<and> int (length (map real [0..<20])) < 2 ^ 53"
    by simp
  from item_id_to_choice_top_cutoff [of "5404319552844595 / 2 ^ 55" "map real [0..<20]"] e k h
  show ?thesis by simp
qed

text \<open>
  The claim as stated fails in both directions, on arrays in which the weight of
  a positive has been zeroed.  With six items and the margin \<open>1/4\<close> the claim's
  cut-off is \<open>ceil(1.5) = 2\<close>, and there is one candidate.  With four items and
  the margin \<open>1/8\<close> the claim's cut-off is \<open>ceil(0.5) = 1\<close>, and all four
  items are candidates (the slice \<open>[-0:]\<close> is the whole array).  Both products
  are \<open>float64\<close> numbers, so no rounding is involved.
\<close>

theorem ceil_cutoff_counterexample:
  "item_id_to_choice [0, 2, 3, 4, 5, 6] (1 / 4) = [5]
   \<and> nat \<lceil>real (length [0, 2, 3, 4, 5, 6 :: real]) * (1 / 4)\<rceil> = 2
   \<and> item_id_to_choice [4, 0, 2, 1] (1 / 8) = [1, 3, 2, 0]
   \<and> nat \<lceil>real (length [4, 0, 2, 1 :: real]) * (1 / 8)\<rceil> = 1"
proof -
  have 1: "item_id_to_choice [0, 2, 3, 4, 5, 6] (1 / 4) = [5]" by code_simp
  have 2: "item_id_to_choice [4, 0, 2, 1] (1 / 8) = [1, 3, 2, 0]" by code_simp
  have 3: "nat \<lceil>real (length [0, 2, 3, 4, 5, 6 :: real]) * (1 / 4)\<rceil> = 2" by code_simp
  have 4: "nat \<lceil>real (length [4, 0, 2, 1 :: real]) * (1 / 8)\<rceil> = 1" by code_simp
  from 1 2 3 4 show ?thesis by blast
qed


lemma np_set_zero_valid:
  assumes "pos \<noteq> []" and "\<forall>i \<in> set pos. 0 \<le> i \<and> i < int (length freq_dist)"
  shows "np_set_zero freq_dist (remdups pos) = Inr (zero_at freq_dist (map nat (remdups pos)))"
proof -
  have "remdups pos \<noteq> []" using assms(1) by (metis set_empty set_remdups)
  moreover have "np_indices (length freq_dist) (remdups pos) = Inr (map nat (remdups pos))"
    using assms(2) by (intro np_indices_valid) simp
  ultimately show ?thesis by (simp add: np_set_zero_def)
qed

text \<open>
  Claim C2.  Let the positives \<open>P\<close> be a non-empty list of valid item ids and
  let every weight of the frequency array be positive (as in every array that
  \<open>make_pos_distributions\<close> builds).  When the candidates kept by the
  \<open>freq_margin\<close> cut-off hold at least \<open>n * |distinct P|\<close> items outside
  \<open>P\<close>, \<open>neg_choice\<close> returns, whatever the state of the generator, exactly
  \<open>n * |distinct P|\<close> item ids, no two of them equal, none of them in \<open>P\<close>,
  and all of them candidates.
\<close>

theorem neg_choice_feasible:
  assumes "pos_item_ids \<noteq> []"
    and "\<forall>i \<in> set pos_item_ids. 0 \<le> i \<and> i < int (length freq_dist)"
    and "\<forall>w \<in> set freq_dist. 0 < w"
    and "n * card (set pos_item_ids)
           \<le> length (filter (\<lambda>i. int i \<notin> set pos_item_ids)
                 (item_id_to_choice (zero_at freq_dist (map nat (remdups pos_item_ids)))
                    freq_margin))"
  shows "\<exists>r g'. neg_choice g freq_dist pos_item_ids freq_margin (int n) = (Inr r, g')
           \<and> length r = n * card (set pos_item_ids)
           \<and> distinct r
           \<and> set r \<inter> set pos_item_ids = {}
           \<and> set r \<subseteq> int ` set (item_id_to_choice
                   (zero_at freq_dist (map nat (remdups pos_item_ids))) freq_margin)"
proof -
  let ?js = "map nat (remdups pos_item_ids)"
  let ?c = "zero_at freq_dist ?js"
  let ?ids = "item_id_to_choice ?c freq_margin"
  let ?kept = "map (\<lambda>i. ?c ! i) ?ids"
  define sz where "sz = int n * int (length (remdups pos_item_ids))"
  have zero: "np_set_zero freq_dist (remdups pos_item_ids) = Inr ?c"
    using assms(1,2) by (rule np_set_zero_valid)
  have card: "length (remdups pos_item_ids) = card (set pos_item_ids)"
    by (simp add: length_remdups_card_conv)
  have szn: "sz = int (n * card (set pos_item_ids))" by (simp add: sz_def card)
  have unfold: "neg_choice g freq_dist pos_item_ids freq_margin (int n) =
     (case random_choice g ?ids sz (np_normalize ?kept) of
        (Inl e, g') \<Rightarrow> if e = ValueError then (Inr (replicate (nat sz) 0), g') else (Inl e, g')
      | (Inr chosen, g') \<Rightarrow> (Inr (map int chosen), g'))"
    unfolding sz_def by (rule neg_choice_unfold [OF zero])
  have lenc: "length ?c = length freq_dist" by (rule length_zero_at)
  have in_js: "i \<in> set ?js \<longleftrightarrow> int i \<in> set pos_item_ids" for i
  proof
    assume "i \<in> set ?js"
    then obtain q where "q \<in> set pos_item_ids" "i = nat q" by auto
    then show "int i \<in> set pos_item_ids" using assms(2) by auto
  next
    assume "int i \<in> set pos_item_ids"
    then have "nat (int i) \<in> set ?js" by (simp only: set_map set_remdups image_eqI)
    then show "i \<in> set ?js" by simp
  qed
  have ids_lt: "\<forall>i \<in> set ?ids. i < length freq_dist"
    using set_item_id_to_choice [of ?c freq_margin] lenc by auto
  have weight: "0 < ?c ! i \<longleftrightarrow> int i \<notin> set pos_item_ids" if "i \<in> set ?ids" for i
  proof -
    have i: "i < length freq_dist" using that ids_lt by blast
    then have w: "0 < freq_dist ! i" using assms(3) by simp
    have "?c ! i = (if i \<in> set ?js then 0 else freq_dist ! i)"
      using i by (rule nth_zero_at)
    then have "?c ! i = (if int i \<in> set pos_item_ids then 0 else freq_dist ! i)"
      unfolding in_js .
    then show ?thesis using w by simp
  qed
  have "filter (\<lambda>i. 0 < ?c ! i) ?ids = filter (\<lambda>i. int i \<notin> set pos_item_ids) ?ids"
    using weight by (intro filter_cong) auto
  then have count: "length (filter (\<lambda>x. 0 < x) ?kept)
                      = length (filter (\<lambda>i. int i \<notin> set pos_item_ids) ?ids)"
    using filter_pos_kept [of ?c ?ids] by simp
  have nonneg: "\<forall>v \<in> set ?kept. 0 \<le> v"
    using assms(3) by (intro kept_nonneg [OF zero]) (auto intro: less_imp_le)
  have feas: "sz \<le> int (length (filter (\<lambda>x. 0 < x) ?kept))"
    using assms(4) unfolding szn count by (simp only: of_nat_le_iff)
  show ?thesis
  proof (cases "sum_list ?kept = 0")
    case True
    with nonneg have "\<forall>v \<in> set ?kept. v = 0" by (rule sum_list_zero_all)
    then have "filter (\<lambda>x. 0 < x) ?kept = []" by (auto simp: filter_empty_conv)
    then have "sz \<le> 0" using feas by simp
    then have "int (n * card (set pos_item_ids)) \<le> 0" unfolding szn .
    then have n0: "n * card (set pos_item_ids) = 0" by (simp only: of_nat_le_0_iff)
    then have sz0: "sz = 0" unfolding szn by (simp only: of_nat_0)
    have "random_choice g ?ids sz (np_normalize ?kept) = (Inl ValueError, g)"
      using True by (simp add: np_normalize_def random_choice_def)
    then have "neg_choice g freq_dist pos_item_ids freq_margin (int n) = (Inr [], g)"
      unfolding unfold sz0 by simp
    then show ?thesis using n0 by simp
  next
    case False
    let ?s = "sum_list ?kept"
    let ?p = "map (\<lambda>x. x / ?s) ?kept"
    have "0 \<le> ?s" using nonneg by (rule sum_list_nonneg_ball)
    with False have s: "0 < ?s" by simp
    have norm: "np_normalize ?kept = Some ?p" using False by (simp add: np_normalize_def)
    have a1: "length ?p = length ?ids" by simp
    have a2: "\<forall>v \<in> set ?p. 0 \<le> v" using nonneg s by auto
    have a3: "sum_list ?p = 1" using False by (rule sum_list_normalized)
    have a4: "0 \<le> sz" unfolding szn by simp
    have a5: "sz \<le> int (length (filter (\<lambda>x. 0 < x) ?p))"
      using feas filter_pos_normalized [OF s, of ?kept] by simp
    from random_choice_ok [OF a1 a2 a3 a4 a5, of g] obtain r g' where
      run: "random_choice g ?ids sz (Some ?p) = (Inr (map (\<lambda>i. ?ids ! i) r), g')" and
      len: "int (length r) = sz" and dist: "distinct r" and
      pos: "\<forall>i \<in> set r. i < length ?ids \<and> 0 < ?p ! i"
      by blast
    let ?res = "map int (map (\<lambda>i. ?ids ! i) r)"
    have 1: "neg_choice g freq_dist pos_item_ids freq_margin (int n) = (Inr ?res, g')"
      unfolding unfold using run norm by simp
    have "int (length r) = int (n * card (set pos_item_ids))" using len unfolding szn .
    then have "length r = n * card (set pos_item_ids)" by (simp only: of_nat_eq_iff)
    then have 2: "length ?res = n * card (set pos_item_ids)" by simp
    have "inj_on (\<lambda>i. ?ids ! i) (set r)"
      using pos distinct_item_id_to_choice [of ?c freq_margin]
      by (auto simp: inj_on_def nth_eq_iff_index_eq)
    then have "distinct (map (\<lambda>i. ?ids ! i) r)" using dist by (simp add: distinct_map)
    then have 3: "distinct ?res" by (simp add: distinct_map inj_on_def)
    have chosen: "\<forall>i \<in> set r. ?ids ! i \<in> set ?ids \<and> int (?ids ! i) \<notin> set pos_item_ids"
    proof
      fix i assume i: "i \<in> set r"
      with pos have il: "i < length ?ids" and pi: "0 < ?p ! i" by blast+
      have mem: "?ids ! i \<in> set ?ids" using il by simp
      have "?p ! i = ?c ! (?ids ! i) / ?s" using il by simp
      with pi s have "0 < ?c ! (?ids ! i)" by (simp add: zero_less_divide_iff)
      with weight [OF mem] mem
      show "?ids ! i \<in> set ?ids \<and> int (?ids ! i) \<notin> set pos_item_ids" by blast
    qed
    then have 4: "set ?res \<inter> set pos_item_ids = {}" by auto
    have 5: "set ?res \<subseteq> int ` set ?ids" using chosen by auto
    from 1 2 3 4 5 show ?thesis by blast
  qed
qed

theorem neg_choice_feasible_witness:
  "fst (neg_choice (\<lambda>i. 0) [1, 2, 3, 1] [1, 2] 1 1) = Inr [0, 3]
   \<and> length [0, 3 :: int] = 1 * card (set [1, 2 :: int])
   \<and> set [0, 3] \<inter> set [1, 2 :: int] = {}"
proof -
  have 1: "[1, 2 :: int] \<noteq> []" by simp
  have 2: "\<forall>i \<in> set [1, 2 :: int]. 0 \<le> i \<and> i < int (length [1, 2, 3, 1 :: real])" by simp
  have 3: "\<forall>w \<in> set [1, 2, 3, 1 :: real]. 0 < w" by simp
  have 4: "1 * card (set [1, 2 :: int])
           \<le> length (filter (\<lambda>i. int i \<notin> set [1, 2 :: int])
                 (item_id_to_choice (zero_at [1, 2, 3, 1] (map nat (remdups [1, 2]))) 1))"
    by code_simp
  have e: "fst (neg_choice (\<lambda>i. 0) [1, 2, 3, 1] [1, 2] 1 1) = Inr [0, 3]" by code_simp
  from neg_choice_feasible [OF 1 2 3 4, of "\<lambda>i. 0"] e show ?thesis by simp
qed

section \<open>Properties of \<open>create_dataset\<close>\<close>

lemma append_pairs_acc:
  "append_pairs u ps ns acc = acc @ append_pairs u ps ns []"
proof (induction ps arbitrary: ns acc)
  case Nil
  then show ?case by simp
next
  case (Cons p ps)
  show ?case
  proof (cases ns)
    case Nil
    then show ?thesis by simp
  next
    case (Cons n ns')
    have "append_pairs u (p # ps) ns acc
            = (acc @ [(u, p, 1), (u, n, -1)]) @ append_pairs u ps ns' []"
      using Cons Cons.IH [of ns' "acc @ [(u, p, 1), (u, n, -1)]"] by simp
    moreover have "append_pairs u (p # ps) ns []
            = [(u, p, 1), (u, n, -1)] @ append_pairs u ps ns' []"
      using Cons Cons.IH [of ns' "[(u, p, 1), (u, n, -1)]"] by simp
    ultimately show ?thesis by simp
  qed
qed


lemma append_pairs_zip:
  "append_pairs u ps ns [] = concat (map (\<lambda>(p, n). [(u, p, 1), (u, n, -1)]) (zip ps ns))"
proof (induction ps arbitrary: ns)
  case Nil
  then show ?case by simp
next
  case (Cons p ps)
  show ?case
  proof (cases ns)
    case Nil
    then show ?thesis by simp
  next
    case (Cons n ns')
    then show ?thesis
      using Cons.IH [of ns'] append_pairs_acc [of u ps ns' "[(u, p, 1), (u, n, -1)]"]
      by simp
  qed
qed

lemma create_dataset_loop_acc:
  "create_dataset_loop ts acc = acc @ concat (map (\<lambda>t. create_dataset_loop [t] []) ts)"
proof (induction ts arbitrary: acc)
  case Nil
  then show ?case by simp
next
  case (Cons t ts)
  obtain u ps ns where t: "t = (u, ps, ns)" by (cases t)
  show ?case
    using Cons.IH [of "append_pairs u ps ns acc"] append_pairs_acc [of u ps ns acc] t
    by simp
qed

lemma pairs_length:
  "length (concat (map (\<lambda>(p, n). [f p, g n]) zs)) = 2 * length zs"
  by (induction zs) auto

lemma pairs_nth:
  "i < length zs \<Longrightarrow>
     concat (map (\<lambda>(p, n). [f p, g n]) zs) ! (2 * i) = f (fst (zs ! i))
     \<and> concat (map (\<lambda>(p, n). [f p, g n]) zs) ! (2 * i + 1) = g (snd (zs ! i))"
proof (induction zs arbitrary: i)
  case Nil
  then show ?case by simp
next
  case (Cons z zs)
  obtain p n where z: "z = (p, n)" by (cases z)
  show ?case
  proof (cases i)
    case 0
    then show ?thesis using z by simp
  next
    case (Suc k)
    then have "k < length zs" using Cons.prems by simp
    from Cons.IH [OF this] show ?thesis using z Suc by simp
  qed
qed

text \<open>
  Claim C6.  For one user's triple \<open>(user_id, positives, negatives)\<close>,
  \<open>create_dataset\<close> emits exactly \<open>2 * min (|positives|) (|negatives|)\<close>
  examples: for each position \<open>i\<close> of the common prefix, the example
  \<open>(user_id, positives[i], 1)\<close> and right after it
  \<open>(user_id, negatives[i], -1)\<close>, in the order of the lists; what the longer
  list has beyond the shorter one is left out.  For a list of triples the result is
  the users' examples one after the other, in the order of the triples.
\<close>

theorem create_dataset_pairs:
  "length (user_examples (user_id, ps, ns)) = 2 * min (length ps) (length ns)
   \<and> (\<forall>i < min (length ps) (length ns).
         user_examples (user_id, ps, ns) ! (2 * i) = (user_id, ps ! i, 1)
         \<and> user_examples (user_id, ps, ns) ! (2 * i + 1) = (user_id, ns ! i, -1))
   \<and> create_dataset ts = concat (map user_examples ts)"
proof -
  let ?f = "\<lambda>p. (user_id, p, 1 :: int)"
  let ?g = "\<lambda>n. (user_id, n, -1 :: int)"
  have ue: "user_examples (user_id, ps, ns)
              = concat (map (\<lambda>(p, n). [?f p, ?g n]) (zip ps ns))"
    by (simp add: user_examples_def create_dataset_def append_pairs_zip)
  have 1: "length (user_examples (user_id, ps, ns)) = 2 * min (length ps) (length ns)"
    unfolding ue pairs_length by simp
  have 2: "\<forall>i < min (length ps) (length ns).
         user_examples (user_id, ps, ns) ! (2 * i) = (user_id, ps ! i, 1)
         \<and> user_examples (user_id, ps, ns) ! (2 * i + 1) = (user_id, ns ! i, -1)"
  proof (intro allI impI)
    fix i assume i: "i < min (length ps) (length ns)"
    then have "i < length (zip ps ns)" by simp
    from pairs_nth [OF this, of ?f ?g] i
    show "user_examples (user_id, ps, ns) ! (2 * i) = (user_id, ps ! i, 1)
         \<and> user_examples (user_id, ps, ns) ! (2 * i + 1) = (user_id, ns ! i, -1)"
      unfolding ue by simp
  qed
  have "user_examples = (\<lambda>t. create_dataset_loop [t] [])"
    by (rule ext) (simp add: user_examples_def create_dataset_def)
  then have 3: "create_dataset ts = concat (map user_examples ts)"
    using create_dataset_loop_acc [of ts "[]"]
    by (simp add: create_dataset_def)
  from 1 2 3 show ?thesis by blast
qed

theorem create_dataset_pairs_witness:
  "user_examples (7, [1, 2, 3], [8, 9]) = [(7, 1, 1), (7, 8, -1), (7, 2, 1), (7, 9, -1)]
   \<and> length (user_examples (7, [1, 2, 3], [8, 9])) = 2 * min (length [1, 2, 3 :: int]) (length [8, 9 :: int])
   \<and> user_examples (7, [1, 2, 3], [8, 9]) ! (2 * 1 + 1) = (7, [8, 9] ! 1, -1)
   \<and> create_dataset [(7, [1, 2, 3], [8, 9]), (5, [4], [6, 0])]
       = [(7, 1, 1), (7, 8, -1), (7, 2, 1), (7, 9, -1), (5, 4, 1), (5, 6, -1)]"
  using create_dataset_pairs [of 7 "[1, 2, 3]" "[8, 9]" "[(7, [1, 2, 3], [8, 9]), (5, [4], [6, 0])]"]
  by (simp add: user_examples_def create_dataset_def)

section \<open>Properties of \<open>split\<close>\<close>

lemma neg_samples_map_shape:
  "map_sum id shape_of (neg_samples_map g sched k freq_dist pos fm n)
     = neg_samples_shape freq_dist pos n"
proof (induction pos arbitrary: k)
  case Nil
  then show ?case by (simp add: shape_of_def)
next
  case (Cons up rest)
  obtain u ps where up: "up = (u, ps)" by (cases up)
  show ?case
  proof (cases "np_set_zero freq_dist (remdups ps)")
    case (Inl e)
    then show ?thesis using up neg_choice_error [OF Inl] by simp
  next
    case (Inr c)
    from neg_choice_length [OF Inr, of "task_rng g sched k" fm n] obtain r g' where
      nc: "neg_choice (task_rng g sched k) freq_dist ps fm n = (Inr r, g')" and
      len: "length r = nat (n * int (length (remdups ps)))"
      by blast
    have ih: "neg_samples_shape freq_dist rest n
                = map_sum id shape_of (neg_samples_map g sched (Suc k) freq_dist rest fm n)"
      using Cons.IH [of "Suc k", symmetric] .
    show ?thesis
    proof (cases "neg_samples_map g sched (Suc k) freq_dist rest fm n")
      case (Inl e)
      then show ?thesis
        using up \<open>np_set_zero freq_dist (remdups ps) = Inr c\<close> nc ih by simp
    next
      case (Inr ts)
      then show ?thesis
        using up \<open>np_set_zero freq_dist (remdups ps) = Inr c\<close> nc len ih
        by (auto simp: shape_of_def)
    qed
  qed
qed

lemma masked_user_examples:
  "map without_negative_item (user_examples (u, ps, ns))
     = concat (map (\<lambda>p. [(u, p, 1), (u, 0, -1)]) (take (length ns) ps))"
proof -
  have "map without_negative_item
          (concat (map (\<lambda>(p, n). [(u, p, 1), (u, n, -1)]) (zip ps ns)))
        = concat (map (\<lambda>p. [(u, p, 1), (u, 0, -1)]) (take (length ns) ps))"
  proof (induction ps arbitrary: ns)
    case Nil
    then show ?case by simp
  next
    case (Cons p ps)
    then show ?case by (cases ns) (simp_all add: without_negative_item_def)
  qed
  then show ?thesis
    by (simp add: user_examples_def create_dataset_def append_pairs_zip)
qed

lemma create_dataset_concat: "create_dataset ts = concat (map user_examples ts)"
proof -
  have "user_examples = (\<lambda>t. create_dataset_loop [t] [])"
    by (rule ext) (simp add: user_examples_def create_dataset_def)
  then show ?thesis
    using create_dataset_loop_acc [of ts "[]"] by (simp add: create_dataset_def)
qed

lemma masked_create_dataset:
  "map without_negative_item (create_dataset ts)
     = concat (map (\<lambda>(u, ps, k). concat (map (\<lambda>p. [(u, p, 1), (u, 0, -1)]) (take k ps)))
                (shape_of ts))"
proof (induction ts)
  case Nil
  then show ?case by (simp add: create_dataset_concat shape_of_def)
next
  case (Cons t ts)
  obtain u ps ns where t: "t = (u, ps, ns)" by (cases t)
  show ?case
    using Cons.IH masked_user_examples [of u ps ns] t
    by (simp add: create_dataset_concat shape_of_def)
qed

lemma length_create_dataset:
  "length (create_dataset ts) = length (map without_negative_item (create_dataset ts))"
  by simp

lemma split_outline_shape:
  "map_sum id split_outline (split randperm self g sched fm n)
     = (case make_pos_distributions self (interactions self) of
          Inl e \<Rightarrow> Inl e
        | Inr (freq_dist, pos) \<Rightarrow>
            (case neg_samples_shape freq_dist pos n of
               Inl e \<Rightarrow> Inl e
             | Inr sh \<Rightarrow>
                 (let m = concat (map (\<lambda>(u, ps, k).
                            concat (map (\<lambda>p. [(u, p, 1), (u, 0, -1)]) (take k ps))) sh);
                      (l1, l2) = random_split_lengths (length m);
                      idx = randperm (l1 + l2)
                  in Inr (take l1 idx, take l2 (drop l1 idx), m, m))))"
proof (cases "make_pos_distributions self (interactions self)")
  case (Inl e)
  then show ?thesis by (simp add: split_def make_negative_samples_def)
next
  case (Inr fp)
  obtain freq_dist pos where fp: "fp = (freq_dist, pos)" by (cases fp)
  have sh: "neg_samples_shape freq_dist pos n
              = map_sum id shape_of (neg_samples_map g sched 0 freq_dist pos fm n)"
    using neg_samples_map_shape [of g sched 0 freq_dist pos fm n, symmetric] .
  show ?thesis
  proof (cases "neg_samples_map g sched 0 freq_dist pos fm n")
    case (Inl e)
    then show ?thesis
      using Inr fp sh by (simp add: split_def make_negative_samples_def)
  next
    case (Inr ts)
    have len: "length (create_dataset ts)
                 = length (map without_negative_item (create_dataset ts))" by simp
    show ?thesis
      using \<open>make_pos_distributions self (interactions self) = Inr fp\<close> fp sh Inr
      by (simp add: split_def make_negative_samples_def train_eval_split_def split_outline_def
            Let_def split_beta masked_create_dataset [symmetric])
  qed
qed

lemma split_results:
  "split randperm self g sched fm n
     = map_sum id (\<lambda>ts. train_eval_split randperm (create_dataset ts))
         (make_negative_samples self g sched fm n)"
  by (cases "make_negative_samples self g sched fm n") (simp_all add: split_def)

lemma dataset_train_eval_split:
  "dataset (train_dataset (train_eval_split randperm ds)) = ds"
  by (simp add: train_eval_split_def Let_def split_beta)

text \<open>
  In the example below the weights are \<open>[2, 2, 1]\<close>, and each of the two tasks
  draws one number, whatever the generator holds: a call of \<open>split\<close> leaves the
  generator two numbers further.
\<close>

lemma two_user_distributions:
  "make_pos_distributions two_user_datasets (interactions two_user_datasets)
     = Inr ([2, 2, 1], [(0, [0]), (1, [1])])"
  by code_simp

lemma two_user_candidates:
  "item_id_to_choice [0, 2, 1] 1 = [0, 2, 1] \<and> item_id_to_choice [2, 0, 1] 1 = [1, 2, 0]"
  by code_simp

lemma two_user_task_draws:
  "snd (neg_choice g [2, 2, 1] [0] 1 1) = (\<lambda>i. g (i + 1))
   \<and> snd (neg_choice g [2, 2, 1] [1] 1 1) = (\<lambda>i. g (i + 1))"
  by (simp add: neg_choice_def np_set_zero_def np_index_def zero_at_def two_user_candidates
        np_normalize_def random_choice_def Let_def choice_loop.simps random_sample_def
        choice_new_def)

text \<open>
  Claim C1, amended.  \<open>split\<close> takes no seed.  The only seeded step is the
  partition, whose generator is re-created with seed 42 in every call; the
  negatives come from the generator of numpy, which \<open>split\<close> neither seeds nor
  resets, drawn by the threads of the pool.  For fixed inputs any two calls, in
  whatever states they find that generator and however the pool schedules its
  tasks, end alike (both with the same error, or both with a result), and two
  results have the same train indices, the same eval indices, the same number of
  examples and, in every position, the same user, the same label and the same
  positive item: they differ at most in the item ids of the negative examples.
\<close>

theorem split_deterministic_up_to_negatives:
  "map_sum id split_outline (split randperm self g1 sched1 freq_margin neg_per_sample)
     = map_sum id split_outline (split randperm self g2 sched2 freq_margin neg_per_sample)"
  by (simp only: split_outline_shape)

text \<open>
  The claim as stated fails: the negative draws differ between two calls on the
  same inputs, whatever the permutation of the partition is.  With two users,
  three items and one negative per positive, the first call gives the negatives 2
  and 0 and a second call, which finds the generator two numbers further, gives 1
  and 0.  And from one and the same generator state the call gives the negatives
  2 and 0 when the task of user 0 draws first, 1 and 2 when the task of user 1
  does.
\<close>

theorem split_repeated_call_counterexample:
  "make_negative_samples two_user_datasets example_rng task0_first 1 1
     = Inr [(0, [0], [2]), (1, [1], [0])]
   \<and> make_negative_samples two_user_datasets (\<lambda>i. example_rng (i + 2)) task0_first 1 1
     = Inr [(0, [0], [1]), (1, [1], [0])]
   \<and> make_negative_samples two_user_datasets example_rng task1_first 1 1
     = Inr [(0, [0], [1]), (1, [1], [2])]
   \<and> (\<forall>randperm.
         split randperm two_user_datasets example_rng task0_first 1 1
           \<noteq> split randperm two_user_datasets (\<lambda>i. example_rng (i + 2)) task0_first 1 1
         \<and> split randperm two_user_datasets example_rng task0_first 1 1
           \<noteq> split randperm two_user_datasets example_rng task1_first 1 1)"
proof -
  have 1: "make_negative_samples two_user_datasets example_rng task0_first 1 1
             = Inr [(0, [0], [2]), (1, [1], [0])]"
    by code_simp
  have 2: "make_negative_samples two_user_datasets (\<lambda>i. example_rng (i + 2)) task0_first 1 1
             = Inr [(0, [0], [1]), (1, [1], [0])]"
    by code_simp
  have 3: "make_negative_samples two_user_datasets example_rng task1_first 1 1
             = Inr [(0, [0], [1]), (1, [1], [2])]"
    by code_simp
  have 4: "create_dataset [(0, [0], [2]), (1, [1], [0])]
             \<noteq> create_dataset [(0, [0], [1]), (1, [1], [0])]"
    by code_simp
  have 5: "create_dataset [(0, [0], [2]), (1, [1], [0])]
             \<noteq> create_dataset [(0, [0], [1]), (1, [1], [2])]"
    by code_simp
  have differ: "train_eval_split randperm ds1 \<noteq> train_eval_split randperm ds2"
    if "ds1 \<noteq> ds2" for ds1 ds2 and randperm :: "nat \<Rightarrow> nat list"
    using that dataset_train_eval_split [of randperm ds1] dataset_train_eval_split [of randperm ds2]
    by auto
  have "\<forall>randperm.
         split randperm two_user_datasets example_rng task0_first 1 1
           \<noteq> split randperm two_user_datasets (\<lambda>i. example_rng (i + 2)) task0_first 1 1
         \<and> split randperm two_user_datasets example_rng task0_first 1 1
           \<noteq> split randperm two_user_datasets example_rng task1_first 1 1"
    unfolding split_results 1 2 3 using differ [OF 4] differ [OF 5] by simp
  with 1 2 3 show ?thesis by blast
qed

section \<open>Properties of the top-k retrieval\<close>

lemma topk_indices_spec:
  assumes "k \<le> length xs"
  shows "\<exists>r. topk_indices xs (int k) = Inr r \<and> length r = k \<and> distinct r
           \<and> (\<forall>x \<in> set r. 0 \<le> x \<and> x < int (length xs))
           \<and> sorted_wrt (\<lambda>a b. xs ! nat b \<le> xs ! nat a) r
           \<and> (\<forall>j < length xs. int j \<notin> set r \<longrightarrow> (\<forall>x \<in> set r. xs ! j \<le> xs ! nat x))"
proof -
  let ?f = "\<lambda>i. - (xs ! i)"
  let ?s = "sort_key ?f [0..<length xs]"
  let ?t = "take k ?s"
  let ?r = "map int ?t"
  have run: "topk_indices xs (int k) = Inr ?r"
    using assms by (simp add: topk_indices_def)
  have len: "length ?r = k" using assms by simp
  have dist_t: "distinct ?t" by (simp add: distinct_take)
  have dist: "distinct ?r" using dist_t by (simp add: distinct_map inj_on_def)
  have sub: "set ?t \<subseteq> {0..<length xs}"
    using set_take_subset [of k ?s] by auto
  have rng: "\<forall>x \<in> set ?r. 0 \<le> x \<and> x < int (length xs)"
    using sub by auto
  have srt: "sorted (map ?f ?s)" by (rule sorted_sort_key)
  have "sorted (map ?f (?t @ drop k ?s))" using srt by simp
  then have both: "sorted (map ?f ?t) \<and> (\<forall>a \<in> set ?t. \<forall>b \<in> set (drop k ?s). ?f a \<le> ?f b)"
    unfolding map_append sorted_append by auto
  then have "sorted_wrt (\<lambda>a b. xs ! b \<le> xs ! a) ?t"
    by (simp add: sorted_wrt_map)
  then have desc: "sorted_wrt (\<lambda>a b. xs ! nat b \<le> xs ! nat a) ?r"
    by (simp add: sorted_wrt_map)
  have dom: "\<forall>j < length xs. int j \<notin> set ?r \<longrightarrow> (\<forall>x \<in> set ?r. xs ! j \<le> xs ! nat x)"
  proof (intro allI impI)
    fix j assume j: "j < length xs" and nin: "int j \<notin> set ?r"
    have "j \<in> set ?s" using j by simp
    moreover have "set ?s = set ?t \<union> set (drop k ?s)"
      by (metis append_take_drop_id set_append)
    moreover have "j \<notin> set ?t" using nin by auto
    ultimately have "j \<in> set (drop k ?s)" by blast
    with both have "\<forall>a \<in> set ?t. xs ! j \<le> xs ! a" by auto
    then show "\<forall>x \<in> set ?r. xs ! j \<le> xs ! nat x" by auto
  qed
  from run len dist rng desc dom show ?thesis by blast
qed

lemma topk_indices_too_many:
  "int (length xs) < k \<Longrightarrow> topk_indices xs k = Inl RuntimeError"
  by (simp add: topk_indices_def)

lemma tensor_row_valid: "i < length w \<Longrightarrow> tensor_row w (int i) = Inr (w ! i)"
  by (simp add: tensor_row_def np_index_def)

lemma tensor_rows_valid:
  "\<forall>i \<in> set ids. 0 \<le> i \<and> i < int (length w) \<Longrightarrow>
     tensor_rows w ids = Inr (map (\<lambda>i. w ! nat i) ids)"
  by (induction ids) (auto simp: tensor_row_def np_index_def)

text \<open>
  Claim C7.  For a user id \<open>u\<close> below the number of user rows and
  \<open>k\<close> at most the number of item rows, \<open>recommend_topk_by_user_ids\<close> on
  \<open>[u]\<close> returns one list of exactly \<open>k\<close> item ids, all distinct and all in
  \<open>[0, items_size)\<close>, in descending order of the similarity \<open>cs\<close> between row
  \<open>u\<close> of the user table and the item's row; every item left out is at most
  as similar as every item returned.  The result is a function of the tables.
\<close>

theorem recommend_topk_by_user_ids_spec:
  assumes "u < length (user_embeddings self)" and "k \<le> length (item_embeddings self)"
  shows "\<exists>r. recommend_topk_by_user_ids self [int u] (int k) = Inr [r]
           \<and> length r = k \<and> distinct r
           \<and> (\<forall>x \<in> set r. 0 \<le> x \<and> x < int (length (item_embeddings self)))
           \<and> sorted_wrt (\<lambda>a b.
                 cs self (user_embeddings self ! u) (item_embeddings self ! nat b)
                   \<le> cs self (user_embeddings self ! u) (item_embeddings self ! nat a)) r
           \<and> (\<forall>j < length (item_embeddings self). int j \<notin> set r \<longrightarrow>
                 (\<forall>x \<in> set r.
                    cs self (user_embeddings self ! u) (item_embeddings self ! j)
                      \<le> cs self (user_embeddings self ! u) (item_embeddings self ! nat x)))"
proof -
  let ?q = "user_embeddings self ! u"
  let ?w = "item_embeddings self"
  let ?xs = "map (cs self ?q) ?w"
  have "k \<le> length ?xs" using assms(2) by simp
  from topk_indices_spec [OF this] obtain r where
    run: "topk_indices ?xs (int k) = Inr r" and len: "length r = k" and dist: "distinct r" and
    rng: "\<forall>x \<in> set r. 0 \<le> x \<and> x < int (length ?xs)" and
    desc: "sorted_wrt (\<lambda>a b. ?xs ! nat b \<le> ?xs ! nat a) r" and
    dom: "\<forall>j < length ?xs. int j \<notin> set r \<longrightarrow> (\<forall>x \<in> set r. ?xs ! j \<le> ?xs ! nat x)"
    by blast
  have nth: "\<And>x. x \<in> set r \<Longrightarrow> ?xs ! nat x = cs self ?q (?w ! nat x)"
    using rng by (simp add: nat_less_iff)
  have 1: "recommend_topk_by_user_ids self [int u] (int k) = Inr [r]"
    using run tensor_row_valid [OF assms(1)] by (simp add: recommend_topk_by_user_ids_def)
  have 2: "\<forall>x \<in> set r. 0 \<le> x \<and> x < int (length ?w)" using rng by simp
  have 3: "sorted_wrt (\<lambda>a b. cs self ?q (?w ! nat b) \<le> cs self ?q (?w ! nat a)) r"
    using desc nth by (rule_tac sorted_wrt_mono_rel [where P = "\<lambda>a b. ?xs ! nat b \<le> ?xs ! nat a"]) auto
  have 4: "\<forall>j < length ?w. int j \<notin> set r \<longrightarrow>
             (\<forall>x \<in> set r. cs self ?q (?w ! j) \<le> cs self ?q (?w ! nat x))"
    using dom nth by auto
  from 1 len dist 2 3 4 show ?thesis by blast
qed


lemma recommend_loop_out_of_range:
  assumes "\<exists>u \<in> set user_ids. int (length (user_embeddings self)) \<le> u
             \<or> u < - int (length (user_embeddings self))"
  shows "\<exists>e. recommend_loop self user_ids k acc = Inl e"
  using assms
proof (induction user_ids arbitrary: acc)
  case Nil
  then show ?case by simp
next
  case (Cons v vs)
  show ?case
  proof (cases "tensor_row (user_embeddings self) v")
    case (Inl e)
    then show ?thesis by simp
  next
    case (Inr row)
    then have ok: "\<not> (int (length (user_embeddings self)) \<le> v \<or> v < - int (length (user_embeddings self)))"
      by (auto simp: tensor_row_def np_index_def split: if_splits)
    with Cons.prems have rest: "\<exists>u \<in> set vs. int (length (user_embeddings self)) \<le> u
             \<or> u < - int (length (user_embeddings self))" by auto
    show ?thesis
    proof (cases "topk_indices (map (cs self row) (item_embeddings self)) k")
      case (Inl e)
      then show ?thesis using Inr by simp
    next
      case (Inr ids)
      then show ?thesis using \<open>tensor_row (user_embeddings self) v = Inr row\<close> Cons.IH [OF rest] by simp
    qed
  qed
qed

text \<open>
  Claim C9, amended.  A user id \<open>u\<close> with \<open>u \<ge> users_size\<close> or
  \<open>u < - users_size\<close> makes \<open>recommend_topk_by_user_ids\<close> fail: on
  \<open>[u]\<close> with \<open>IndexError\<close>, and on any list that holds such an id with
  some error and no result.  An id in \<open>[- users_size, 0)\<close> does not fail: it
  is read from the end of the table, and the call returns what it returns for
  \<open>u + users_size\<close>.
\<close>

theorem recommend_topk_by_user_ids_out_of_range:
  "(int (length (user_embeddings self)) \<le> u \<or> u < - int (length (user_embeddings self))
      \<longrightarrow> recommend_topk_by_user_ids self [u] k = Inl IndexError)
   \<and> ((\<exists>v \<in> set user_ids. int (length (user_embeddings self)) \<le> v
             \<or> v < - int (length (user_embeddings self)))
      \<longrightarrow> (\<exists>e. recommend_topk_by_user_ids self user_ids k = Inl e))
   \<and> (- int (length (user_embeddings self)) \<le> u \<and> u < 0
      \<longrightarrow> recommend_topk_by_user_ids self [u] k
            = recommend_topk_by_user_ids self [u + int (length (user_embeddings self))] k)"
proof (intro conjI impI)
  assume "int (length (user_embeddings self)) \<le> u \<or> u < - int (length (user_embeddings self))"
  then show "recommend_topk_by_user_ids self [u] k = Inl IndexError"
    by (auto simp: recommend_topk_by_user_ids_def tensor_row_def np_index_def)
next
  assume "\<exists>v \<in> set user_ids. int (length (user_embeddings self)) \<le> v
             \<or> v < - int (length (user_embeddings self))"
  from recommend_loop_out_of_range [OF this]
  show "\<exists>e. recommend_topk_by_user_ids self user_ids k = Inl e"
    by (simp add: recommend_topk_by_user_ids_def)
next
  assume "- int (length (user_embeddings self)) \<le> u \<and> u < 0"
  then have "tensor_row (user_embeddings self) u
               = tensor_row (user_embeddings self) (u + int (length (user_embeddings self)))"
    by (simp add: tensor_row_def np_index_def)
  then show "recommend_topk_by_user_ids self [u] k
            = recommend_topk_by_user_ids self [u + int (length (user_embeddings self))] k"
    by (simp add: recommend_topk_by_user_ids_def)
qed

lemmas example_model_eval =
  recommend_topk_by_user_ids_def recommend_topk_by_item_ids_def example_model_def
  tensor_row_def np_index_def topk_indices_def CosineSimilarity_def l2_norm_def
  mean_dim0_def ncols_def upt_rec numeral_eq_Suc

theorem recommend_topk_by_user_ids_out_of_range_witness:
  "recommend_topk_by_user_ids example_model [2] 2 = Inl IndexError
   \<and> recommend_topk_by_user_ids example_model [0, -3] 2 = Inl IndexError
   \<and> recommend_topk_by_user_ids example_model [-1] 2
       = recommend_topk_by_user_ids example_model [1] 2"
  using recommend_topk_by_user_ids_out_of_range [of example_model 2 2 "[0, -3]"]
        recommend_topk_by_user_ids_out_of_range [of example_model "-1" 2 "[]"]
  by (simp add: example_model_eval)

text \<open>
  The claim as stated fails for the id \<open>-1\<close>, which is outside
  \<open>[0, users_size)\<close> and for which a list of recommendations is returned.
\<close>

theorem negative_user_id_counterexample:
  "(-1 :: int) \<notin> {0 ..< int (length (user_embeddings example_model))}
   \<and> recommend_topk_by_user_ids example_model [-1] 2 = Inr [[0, 1]]"
  by (simp add: example_model_eval)

theorem recommend_topk_by_user_ids_spec_witness:
  "0 < length (user_embeddings example_model)
   \<and> 3 \<le> length (item_embeddings example_model)
   \<and> recommend_topk_by_user_ids example_model [0] 3 = Inr [[1, 0, 2]]"
  using recommend_topk_by_user_ids_spec [of 0 example_model 3]
  by (simp add: example_model_eval)

lemma ncols_uniform:
  "w \<noteq> [] \<Longrightarrow> \<forall>row \<in> set w. length row = d \<Longrightarrow> ncols w = d"
  by (cases w) (auto simp: ncols_def)

text \<open>
  Claim C8.  For a non-empty list of valid item ids and \<open>k\<close> at most the
  number of item rows (each row of \<open>d\<close> entries),
  \<open>recommend_topk_by_item_ids\<close> takes as query \<open>q\<close> the column-wise mean of
  the rows of the given ids and returns exactly \<open>k\<close> item ids, all distinct and
  all in \<open>[0, items_size)\<close>, in descending order of the similarity between
  \<open>q\<close> and the item's row; every item left out is at most as similar as every
  item returned.
\<close>

theorem recommend_topk_by_item_ids_spec:
  assumes "item_ids \<noteq> []"
    and "\<forall>i \<in> set item_ids. 0 \<le> i \<and> i < int (length (item_embeddings self))"
    and "k \<le> length (item_embeddings self)"
    and "\<forall>row \<in> set (item_embeddings self). length row = d"
  shows "\<exists>q r. length q = d
           \<and> (\<forall>c < d. q ! c = (\<Sum>i \<leftarrow> item_ids. item_embeddings self ! nat i ! c)
                                  / real (length item_ids))
           \<and> recommend_topk_by_item_ids self item_ids (int k) = Inr r
           \<and> length r = k \<and> distinct r
           \<and> (\<forall>x \<in> set r. 0 \<le> x \<and> x < int (length (item_embeddings self)))
           \<and> sorted_wrt (\<lambda>a b.
                 cs self q (item_embeddings self ! nat b)
                   \<le> cs self q (item_embeddings self ! nat a)) r
           \<and> (\<forall>j < length (item_embeddings self). int j \<notin> set r \<longrightarrow>
                 (\<forall>x \<in> set r.
                    cs self q (item_embeddings self ! j)
                      \<le> cs self q (item_embeddings self ! nat x)))"
proof -
  let ?w = "item_embeddings self"
  let ?rows = "map (\<lambda>i. ?w ! nat i) item_ids"
  let ?q = "mean_dim0 (ncols ?w) ?rows"
  let ?xs = "map (cs self ?q) ?w"
  have "?w \<noteq> []" using assms(1,2) by (cases item_ids) auto
  then have nc: "ncols ?w = d" using assms(4) by (rule ncols_uniform)
  have rows: "tensor_rows ?w item_ids = Inr ?rows"
    using assms(2) by (rule tensor_rows_valid)
  have q1: "length ?q = d" using nc by (simp add: mean_dim0_def)
  have q2: "\<forall>c < d. ?q ! c = (\<Sum>i \<leftarrow> item_ids. ?w ! nat i ! c) / real (length item_ids)"
    using nc by (simp add: mean_dim0_def o_def)
  have "k \<le> length ?xs" using assms(3) by simp
  from topk_indices_spec [OF this] obtain r where
    run: "topk_indices ?xs (int k) = Inr r" and len: "length r = k" and dist: "distinct r" and
    rng: "\<forall>x \<in> set r. 0 \<le> x \<and> x < int (length ?xs)" and
    desc: "sorted_wrt (\<lambda>a b. ?xs ! nat b \<le> ?xs ! nat a) r" and
    dom: "\<forall>j < length ?xs. int j \<notin> set r \<longrightarrow> (\<forall>x \<in> set r. ?xs ! j \<le> ?xs ! nat x)"
    by blast
  have nth: "\<And>x. x \<in> set r \<Longrightarrow> ?xs ! nat x = cs self ?q (?w ! nat x)"
    using rng by (simp add: nat_less_iff)
  have 1: "recommend_topk_by_item_ids self item_ids (int k) = Inr r"
    using run rows by (simp add: recommend_topk_by_item_ids_def)
  have 2: "\<forall>x \<in> set r. 0 \<le> x \<and> x < int (length ?w)" using rng by simp
  have 3: "sorted_wrt (\<lambda>a b. cs self ?q (?w ! nat b) \<le> cs self ?q (?w ! nat a)) r"
    using desc nth by (rule_tac sorted_wrt_mono_rel [where P = "\<lambda>a b. ?xs ! nat b \<le> ?xs ! nat a"]) auto
  have 4: "\<forall>j < length ?w. int j \<notin> set r \<longrightarrow>
             (\<forall>x \<in> set r. cs self ?q (?w ! j) \<le> cs self ?q (?w ! nat x))"
    using dom nth by auto
  from q1 q2 1 len dist 2 3 4 show ?thesis by blast
qed

theorem recommend_topk_by_item_ids_spec_witness:
  "[1, 2 :: int] \<noteq> []
   \<and> 3 \<le> length (item_embeddings example_model)
   \<and> mean_dim0 2 [[0, 1], [1, 0]] = [1 / 2, 1 / 2]
   \<and> recommend_topk_by_item_ids example_model [0, 1] 3 = Inr [0, 1, 2]"
  using recommend_topk_by_item_ids_spec [of "[0, 1]" example_model 3 2]
  by (simp add: example_model_eval)

end
